theory Spec2Isabelle
  imports Complex_Main "HOL-Library.Word"
begin

section \<open>The WAV encoder of static/js/recorder.js\<close>

text \<open>
  The development embeds \<^verbatim>\<open>encodeWAV\<close> and \<^verbatim>\<open>writeString\<close> of
  \<^verbatim>\<open>static/js/recorder.js\<close>, together with the parts of the JavaScript
  runtime they call: number comparison and multiplication, \<^verbatim>\<open>Math.min\<close>,
  \<^verbatim>\<open>Math.max\<close>, typed-array element access, and the \<^verbatim>\<open>DataView\<close>
  setters with their integer conversions.
\<close>

subsection \<open>JavaScript numbers\<close>

text \<open>
  An element of a \<^verbatim>\<open>Float32Array\<close> is a finite binary fraction, an infinity or NaN.
  The finite ones are embedded in the reals. Every finite element \<open>s\<close> has a 24-bit
  significand, so the double-precision products \<^verbatim>\<open>s * 0x8000\<close> and
  \<^verbatim>\<open>s * 0x7fff\<close> of the encoder carry at most 39 significant bits and are exact:
  on these inputs real multiplication is the multiplication the program performs.
  Both zeros are the one real \<open>0\<close>; they are indistinguishable to every operation used here.
\<close>

datatype number = Fin real | PosInf | NegInf | NaN

text \<open>The operator \<^verbatim>\<open><\<close>: false as soon as one operand is NaN.\<close>

fun js_less :: "number \<Rightarrow> number \<Rightarrow> bool" where
  "js_less NaN _ = False"
| "js_less _ NaN = False"
| "js_less (Fin a) (Fin b) = (a < b)"
| "js_less NegInf NegInf = False"
| "js_less NegInf _ = True"
| "js_less _ NegInf = False"
| "js_less PosInf _ = False"
| "js_less _ PosInf = True"

text \<open>\<^verbatim>\<open>Math.min\<close> and \<^verbatim>\<open>Math.max\<close> of two arguments: NaN if either is NaN.\<close>

definition Math_min :: "number \<Rightarrow> number \<Rightarrow> number" where
  "Math_min a b = (if a = NaN \<or> b = NaN then NaN else if js_less b a then b else a)"

definition Math_max :: "number \<Rightarrow> number \<Rightarrow> number" where
  "Math_max a b = (if a = NaN \<or> b = NaN then NaN else if js_less a b then b else a)"

text \<open>The operator \<^verbatim>\<open>*\<close>: NaN is absorbing, and zero times an infinity is NaN.\<close>

fun js_times :: "number \<Rightarrow> number \<Rightarrow> number" where
  "js_times NaN _ = NaN"
| "js_times _ NaN = NaN"
| "js_times (Fin a) (Fin b) = Fin (a * b)"
| "js_times (Fin a) PosInf = (if a = 0 then NaN else if 0 < a then PosInf else NegInf)"
| "js_times (Fin a) NegInf = (if a = 0 then NaN else if 0 < a then NegInf else PosInf)"
| "js_times PosInf (Fin b) = (if b = 0 then NaN else if 0 < b then PosInf else NegInf)"
| "js_times NegInf (Fin b) = (if b = 0 then NaN else if 0 < b then NegInf else PosInf)"
| "js_times PosInf PosInf = PosInf"
| "js_times NegInf NegInf = PosInf"
| "js_times PosInf NegInf = NegInf"
| "js_times NegInf PosInf = NegInf"

subsection \<open>Integer conversions\<close>

text \<open>Truncation towards zero, the first step of every integer conversion.\<close>

definition js_truncate :: "real \<Rightarrow> int" where
  "js_truncate x = (if x < 0 then \<lceil>x\<rceil> else \<lfloor>x\<rfloor>)"

text \<open>
  \<^verbatim>\<open>ToInt16\<close>: NaN and the infinities give 0; a finite number is truncated, reduced
  modulo \<open>2^16\<close> and read as two's complement.
\<close>

fun ToInt16 :: "number \<Rightarrow> int" where
  "ToInt16 (Fin x) =
     (let int16bit = js_truncate x mod 2 ^ 16
      in if int16bit \<ge> 2 ^ 15 then int16bit - 2 ^ 16 else int16bit)"
| "ToInt16 _ = 0"

text \<open>
  \<^verbatim>\<open>ToUint8\<close>, \<^verbatim>\<open>ToUint16\<close> and \<^verbatim>\<open>ToUint32\<close> on the non-negative integers, which
  is all the encoder passes to the unsigned setters.
\<close>

definition ToUint8 :: "nat \<Rightarrow> nat" where
  "ToUint8 n = n mod 2 ^ 8"

definition ToUint16 :: "nat \<Rightarrow> nat" where
  "ToUint16 n = n mod 2 ^ 16"

definition ToUint32 :: "nat \<Rightarrow> nat" where
  "ToUint32 n = n mod 2 ^ 32"

subsection \<open>Typed arrays\<close>

text \<open>
  Reading a \<^verbatim>\<open>Float32Array\<close> past its end yields \<^verbatim>\<open>undefined\<close>, which becomes NaN
  when it is stored into another \<^verbatim>\<open>Float32Array\<close>; writing past the end does nothing.
\<close>

definition f32_get :: "number list \<Rightarrow> nat \<Rightarrow> number" where
  "f32_get xs i = (if i < length xs then xs ! i else NaN)"

definition f32_set :: "number list \<Rightarrow> nat \<Rightarrow> number \<Rightarrow> number list" where
  "f32_set xs i v = (if i < length xs then xs[i := v] else xs)"

text \<open>\<^verbatim>\<open>slice(begin)\<close> with a non-negative \<open>begin\<close>: a new array holding the elements from \<open>begin\<close> on.\<close>

definition f32_slice :: "number list \<Rightarrow> nat \<Rightarrow> number list" where
  "f32_slice xs begin = drop begin xs"

subsection \<open>DataView\<close>

type_synonym byte = "8 word"

datatype error = IndexSizeError | RangeError

definition bindE :: "error + 'a \<Rightarrow> ('a \<Rightarrow> error + 'b) \<Rightarrow> error + 'b" where
  "bindE m f = (case m of Inl e \<Rightarrow> Inl e | Inr x \<Rightarrow> f x)"

text \<open>The \<open>k\<close> low-order bytes of a non-negative integer, least significant first.\<close>

fun le_bytes :: "nat \<Rightarrow> nat \<Rightarrow> byte list" where
  "le_bytes 0 n = []"
| "le_bytes (Suc k) n = of_nat (n mod 256) # le_bytes k (n div 256)"

text \<open>
  A view is the byte sequence of its buffer. Every setter checks that the bytes it is
  about to store lie inside the view and throws a \<^verbatim>\<open>RangeError\<close> otherwise.
\<close>

definition store_bytes :: "byte list \<Rightarrow> nat \<Rightarrow> byte list \<Rightarrow> error + byte list" where
  "store_bytes view byteOffset bs =
     (if byteOffset + length bs \<le> length view
      then Inr (take byteOffset view @ bs @ drop (byteOffset + length bs) view)
      else Inl RangeError)"

text \<open>The multi-byte setters are only ever called with \<^verbatim>\<open>littleEndian = true\<close>.\<close>

definition setUint8 :: "byte list \<Rightarrow> nat \<Rightarrow> nat \<Rightarrow> error + byte list" where
  "setUint8 view byteOffset v = store_bytes view byteOffset (le_bytes 1 (ToUint8 v))"

definition setUint16 :: "byte list \<Rightarrow> nat \<Rightarrow> nat \<Rightarrow> error + byte list" where
  "setUint16 view byteOffset v = store_bytes view byteOffset (le_bytes 2 (ToUint16 v))"

definition setUint32 :: "byte list \<Rightarrow> nat \<Rightarrow> nat \<Rightarrow> error + byte list" where
  "setUint32 view byteOffset v = store_bytes view byteOffset (le_bytes 4 (ToUint32 v))"

text \<open>A negative 16-bit value is stored in two's complement.\<close>

definition setInt16 :: "byte list \<Rightarrow> nat \<Rightarrow> number \<Rightarrow> error + byte list" where
  "setInt16 view byteOffset v =
     store_bytes view byteOffset (le_bytes 2 (nat (ToInt16 v mod 2 ^ 16)))"

subsection \<open>AudioBuffer\<close>

text \<open>
  An \<^verbatim>\<open>AudioBuffer\<close> holds its sample rate, its length in sample frames (the
  attribute \<^verbatim>\<open>length\<close>, here \<open>length_frames\<close>) and one \<^verbatim>\<open>Float32Array\<close> per
  channel; \<^verbatim>\<open>numberOfChannels\<close> counts them. \<^verbatim>\<open>getChannelData\<close> throws an
  \<^verbatim>\<open>IndexSizeError\<close> for a channel that does not exist. The sample rate is a
  non-negative integer, as in the specification's data model; the products and sums the
  encoder forms from it and from array lengths are exact in double precision below
  \<open>2^53\<close>, and are embedded as the arithmetic of the natural numbers.
\<close>

record AudioBuffer =
  sampleRate :: nat
  length_frames :: nat
  channelData :: "number list list"

definition numberOfChannels :: "AudioBuffer \<Rightarrow> nat" where
  "numberOfChannels audioBuffer = length (channelData audioBuffer)"

definition getChannelData :: "AudioBuffer \<Rightarrow> nat \<Rightarrow> error + number list" where
  "getChannelData audioBuffer channel =
     (if channel < numberOfChannels audioBuffer
      then Inr (channelData audioBuffer ! channel)
      else Inl IndexSizeError)"

subsection \<open>writeString\<close>

text \<open>
  \<^verbatim>\<open>for (let i = 0; i < string.length; i++) view.setUint8(offset + i, string.charCodeAt(i))\<close>
\<close>

function writeString_loop :: "byte list \<Rightarrow> nat \<Rightarrow> string \<Rightarrow> nat \<Rightarrow> error + byte list" where
  "writeString_loop view offset string i =
     (if i < length string
      then bindE (setUint8 view (offset + i) (of_char (string ! i)))
             (\<lambda>view'. writeString_loop view' offset string (i + 1))
      else Inr view)"
  by pat_completeness auto
termination
  by (relation "measure (\<lambda>(view, offset, string, i). length string - i)") auto

declare writeString_loop.simps [simp del]

definition writeString :: "byte list \<Rightarrow> nat \<Rightarrow> string \<Rightarrow> error + byte list" where
  "writeString view offset string = writeString_loop view offset string 0"

subsection \<open>encodeWAV\<close>

text \<open>
  The stereo loop writes channel 0 and channel 1 alternately:
  \<^verbatim>\<open>for (let i = 0; i < ch0.length; i++) { interleaved[idx++] = ch0[i]; interleaved[idx++] = ch1[i]; }\<close>
\<close>

function interleave_loop ::
  "number list \<Rightarrow> number list \<Rightarrow> nat \<Rightarrow> nat \<Rightarrow> number list \<Rightarrow> number list" where
  "interleave_loop ch0 ch1 i idx interleaved =
     (if i < length ch0
      then interleave_loop ch0 ch1 (i + 1) (idx + 2)
             (f32_set (f32_set interleaved idx (f32_get ch0 i)) (idx + 1) (f32_get ch1 i))
      else interleaved)"
  by pat_completeness auto
termination
  by (relation "measure (\<lambda>(ch0, ch1, i, idx, interleaved). length ch0 - i)") auto

declare interleave_loop.simps [simp del]

text \<open>
  \<^verbatim>\<open>encodeWAV\<close> is embedded in two halves. The first is lines 86 to 103: the channel
  count is capped at two; two channels are interleaved into a new zero-filled array of
  \<open>ch0.length + ch1.length\<close> elements, otherwise channel 0 is copied by \<^verbatim>\<open>slice(0)\<close>.
  The constant \<^verbatim>\<open>samples\<close> of line 88, the only use of \<^verbatim>\<open>audioBuffer.length\<close>, is
  never read and is left out.
\<close>

definition interleave :: "AudioBuffer \<Rightarrow> error + number list" where
  "interleave audioBuffer =
     (let numChannels = min 2 (numberOfChannels audioBuffer)
      in if numChannels = 2
         then bindE (getChannelData audioBuffer 0) (\<lambda>ch0.
              bindE (getChannelData audioBuffer 1) (\<lambda>ch1.
              Inr (interleave_loop ch0 ch1 0 0
                     (replicate (length ch0 + length ch1) (Fin 0)))))
         else bindE (getChannelData audioBuffer 0) (\<lambda>ch0. Inr (f32_slice ch0 0)))"

text \<open>
  The value handed to \<^verbatim>\<open>setInt16\<close> for one sample:
  \<^verbatim>\<open>let s = Math.max(-1, Math.min(1, interleaved[i])); s < 0 ? s * 0x8000 : s * 0x7fff\<close>
\<close>

definition clamp :: "number \<Rightarrow> number" where
  "clamp x = Math_max (Fin (- 1)) (Math_min (Fin 1) x)"

definition scale :: "number \<Rightarrow> number" where
  "scale s = (if js_less s (Fin 0) then js_times s (Fin 32768) else js_times s (Fin 32767))"

text \<open>
  \<^verbatim>\<open>for (let i = 0; i < interleaved.length; i++, offset += 2)\<close>
\<close>

function writePCM_loop ::
  "number list \<Rightarrow> nat \<Rightarrow> nat \<Rightarrow> byte list \<Rightarrow> error + byte list" where
  "writePCM_loop interleaved i offset view =
     (if i < length interleaved
      then bindE (setInt16 view offset (scale (clamp (f32_get interleaved i))))
             (\<lambda>view'. writePCM_loop interleaved (i + 1) (offset + 2) view')
      else Inr view)"
  by pat_completeness auto
termination
  by (relation "measure (\<lambda>(interleaved, i, offset, view). length interleaved - i)") auto

declare writePCM_loop.simps [simp del]

text \<open>
  The second half is lines 106 to 131, for a given interleaved array: a zero-filled buffer
  of \<open>44 + interleaved.length * 2\<close> bytes, the thirteen header writes, and the loop over
  the samples. The result is the content of the returned \<^verbatim>\<open>Blob\<close>, the bytes of the
  view.
\<close>

definition writeWAV :: "nat \<Rightarrow> nat \<Rightarrow> number list \<Rightarrow> error + byte list" where
  "writeWAV rate numChannels interleaved =
     (let view = replicate (44 + length interleaved * 2) 0 in
     bindE (writeString view 0 ''RIFF'') (\<lambda>view.
     bindE (setUint32 view 4 (36 + length interleaved * 2)) (\<lambda>view.
     bindE (writeString view 8 ''WAVE'') (\<lambda>view.
     bindE (writeString view 12 ''fmt '') (\<lambda>view.
     bindE (setUint32 view 16 16) (\<lambda>view.
     bindE (setUint16 view 20 1) (\<lambda>view.
     bindE (setUint16 view 22 numChannels) (\<lambda>view.
     bindE (setUint32 view 24 rate) (\<lambda>view.
     bindE (setUint32 view 28 (rate * numChannels * 2)) (\<lambda>view.
     bindE (setUint16 view 32 (numChannels * 2)) (\<lambda>view.
     bindE (setUint16 view 34 16) (\<lambda>view.
     bindE (writeString view 36 ''data'') (\<lambda>view.
     bindE (setUint32 view 40 (length interleaved * 2)) (\<lambda>view.
     writePCM_loop interleaved 0 44 view))))))))))))))"

definition encodeWAV :: "AudioBuffer \<Rightarrow> error + byte list" where
  "encodeWAV audioBuffer =
     bindE (interleave audioBuffer) (\<lambda>interleaved.
       writeWAV (sampleRate audioBuffer) (min 2 (numberOfChannels audioBuffer)) interleaved)"

section \<open>Arrays as objects\<close>

text \<open>
  The embedding above passes arrays by value. The program passes references:
  \<^verbatim>\<open>getChannelData\<close> returns the array that is the channel's storage, while
  \<^verbatim>\<open>new Float32Array(n)\<close> and \<^verbatim>\<open>slice\<close> create a new array. The heap below
  holds the arrays created so far, addressed by their position; lines 91 to 103 are
  embedded a second time over it, to be related to \<open>interleave\<close>.
\<close>

type_synonym heap = "number list list"

text \<open>A new array takes the first address that is not in use.\<close>

definition new_Float32Array :: "heap \<Rightarrow> number list \<Rightarrow> heap \<times> nat" where
  "new_Float32Array h elems = (h @ [elems], length h)"

text \<open>The assignment \<^verbatim>\<open>a[i] = v\<close> to the array at address \<open>a\<close>.\<close>

definition heap_set :: "heap \<Rightarrow> nat \<Rightarrow> nat \<Rightarrow> number \<Rightarrow> heap" where
  "heap_set h a i v = h[a := f32_set (h ! a) i v]"

text \<open>
  The audio buffer is given by the addresses of its channel arrays;
  \<^verbatim>\<open>getChannelData\<close> returns one of them.
\<close>

definition getChannelData_ref :: "nat list \<Rightarrow> nat \<Rightarrow> error + nat" where
  "getChannelData_ref channels channel =
     (if channel < length channels then Inr (channels ! channel) else Inl IndexSizeError)"

function interleave_loop_heap :: "heap \<Rightarrow> nat \<Rightarrow> nat \<Rightarrow> nat \<Rightarrow> nat \<Rightarrow> nat \<Rightarrow> heap" where
  "interleave_loop_heap h ch0 ch1 i idx interleaved =
     (if i < length (h ! ch0)
      then let h1 = heap_set h interleaved idx (f32_get (h ! ch0) i);
               h2 = heap_set h1 interleaved (idx + 1) (f32_get (h1 ! ch1) i)
           in interleave_loop_heap h2 ch0 ch1 (i + 1) (idx + 2) interleaved
      else h)"
  by pat_completeness auto
termination
proof (relation "measure (\<lambda>(h, ch0, ch1, i, idx, interleaved). length (h ! ch0) - i)", goal_cases)
  case 1
  show ?case by simp
next
  case (2 h ch0 ch1 i idx interleaved h1 h2)
  have same: "length (heap_set g a j v ! b) = length (g ! b)" for g a j v b
    by (cases "a < length g"; cases "a = b")
       (simp_all add: heap_set_def f32_set_def list_update_beyond)
  show ?case using 2 by (simp add: same)
qed

declare interleave_loop_heap.simps [simp del]

text \<open>
  Lines 86 to 103 over the heap: the result is the heap after the call and the address
  bound to \<^verbatim>\<open>interleaved\<close>.
\<close>

definition interleave_heap :: "heap \<Rightarrow> nat list \<Rightarrow> error + heap \<times> nat" where
  "interleave_heap h channels =
     (let numChannels = min 2 (length channels)
      in if numChannels = 2
         then bindE (getChannelData_ref channels 0) (\<lambda>ch0.
              bindE (getChannelData_ref channels 1) (\<lambda>ch1.
              let (h', interleaved) =
                    new_Float32Array h (replicate (length (h ! ch0) + length (h ! ch1)) (Fin 0))
              in Inr (interleave_loop_heap h' ch0 ch1 0 0 interleaved, interleaved)))
         else bindE (getChannelData_ref channels 0) (\<lambda>ch0.
              Inr (new_Float32Array h (f32_slice (h ! ch0) 0))))"

section \<open>Notions used to state the properties\<close>

subsection \<open>The encoder's output, piece by piece\<close>

text \<open>The 16-bit integer stored for one sample, and its two bytes.\<close>

definition pcm16 :: "number \<Rightarrow> int" where
  "pcm16 x = ToInt16 (scale (clamp x))"

definition pcm_bytes :: "number \<Rightarrow> byte list" where
  "pcm_bytes x = le_bytes 2 (nat (pcm16 x mod 2 ^ 16))"

definition payload :: "number list \<Rightarrow> byte list" where
  "payload interleaved = concat (map pcm_bytes interleaved)"

text \<open>The character codes of a string, one byte each.\<close>

definition ascii :: "string \<Rightarrow> byte list" where
  "ascii s = map (\<lambda>c. of_nat (of_char c)) s"

text \<open>
  The bytes left by the thirteen header writes of lines 109 to 121, which fill the offsets
  0 to 43 in order.
\<close>

definition header :: "nat \<Rightarrow> nat \<Rightarrow> nat \<Rightarrow> byte list" where
  "header rate numChannels n =
     ascii ''RIFF'' @ le_bytes 4 (ToUint32 (36 + n * 2)) @ ascii ''WAVE'' @ ascii ''fmt '' @
     le_bytes 4 (ToUint32 16) @ le_bytes 2 (ToUint16 1) @ le_bytes 2 (ToUint16 numChannels) @
     le_bytes 4 (ToUint32 rate) @ le_bytes 4 (ToUint32 (rate * numChannels * 2)) @
     le_bytes 2 (ToUint16 (numChannels * 2)) @ le_bytes 2 (ToUint16 16) @ ascii ''data'' @
     le_bytes 4 (ToUint32 (n * 2))"

text \<open>A view whose first bytes have been written and whose last \<open>m\<close> bytes are still zero.\<close>

definition filled :: "byte list \<Rightarrow> nat \<Rightarrow> byte list" where
  "filled written m = written @ replicate m 0"

subsection \<open>Reading a byte sequence back\<close>

text \<open>
  Little-endian readers, the counterparts of \<^verbatim>\<open>getUint16\<close>, \<^verbatim>\<open>getUint32\<close> and
  \<^verbatim>\<open>getInt16\<close> with \<^verbatim>\<open>littleEndian = true\<close>. The program does not contain them;
  they give the header fields of the properties their meaning.
\<close>

fun uint_le :: "byte list \<Rightarrow> nat" where
  "uint_le [] = 0"
| "uint_le (b # bs) = unat b + 256 * uint_le bs"

definition bytes_at :: "byte list \<Rightarrow> nat \<Rightarrow> nat \<Rightarrow> byte list" where
  "bytes_at bs off k = take k (drop off bs)"

definition read_uint16 :: "byte list \<Rightarrow> nat \<Rightarrow> nat" where
  "read_uint16 bs off = uint_le (bytes_at bs off 2)"

definition read_uint32 :: "byte list \<Rightarrow> nat \<Rightarrow> nat" where
  "read_uint32 bs off = uint_le (bytes_at bs off 4)"

definition read_int16 :: "byte list \<Rightarrow> nat \<Rightarrow> int" where
  "read_int16 bs off =
     (let u = int (read_uint16 bs off) in if u \<ge> 2 ^ 15 then u - 2 ^ 16 else u)"

text \<open>
  A reference reader for the canonical layout: a RIFF chunk of type \<open>WAVE\<close> that lies
  inside the file, a 16-byte format chunk of integer PCM with 16 bits per sample and a
  consistent block alignment, and a data chunk that lies inside the RIFF chunk. It
  rejects everything else. The frame count is the data size divided by the block
  alignment; the samples are returned as 16-bit integers, in file order.
\<close>

record WavData =
  wav_channels :: nat
  wav_sampleRate :: nat
  wav_frames :: nat
  wav_samples :: "int list"

definition read_wav :: "byte list \<Rightarrow> WavData option" where
  "read_wav bs =
     (if length bs < 44 \<or> bytes_at bs 0 4 \<noteq> ascii ''RIFF''
         \<or> length bs < 8 + read_uint32 bs 4 \<or> bytes_at bs 8 4 \<noteq> ascii ''WAVE''
         \<or> bytes_at bs 12 4 \<noteq> ascii ''fmt '' \<or> read_uint32 bs 16 \<noteq> 16
         \<or> read_uint16 bs 20 \<noteq> 1 \<or> read_uint16 bs 34 \<noteq> 16
         \<or> read_uint16 bs 32 \<noteq> read_uint16 bs 22 * 2 \<or> read_uint16 bs 22 = 0
         \<or> bytes_at bs 36 4 \<noteq> ascii ''data''
         \<or> 8 + read_uint32 bs 4 < 44 + read_uint32 bs 40
      then None
      else Some \<lparr>wav_channels = read_uint16 bs 22,
                 wav_sampleRate = read_uint32 bs 24,
                 wav_frames = read_uint32 bs 40 div read_uint16 bs 32,
                 wav_samples = map (\<lambda>i. read_int16 bs (44 + 2 * i))
                                 [0 ..< read_uint32 bs 40 div 2]\<rparr>)"

subsection \<open>The specification's words\<close>

text \<open>
  A valid decoded audio value: at least one channel, and every channel buffer as long as
  the frame count.
\<close>

definition valid_audio :: "AudioBuffer \<Rightarrow> bool" where
  "valid_audio audioBuffer =
     (1 \<le> numberOfChannels audioBuffer \<and>
      (\<forall>ch \<in> set (channelData audioBuffer). length ch = length_frames audioBuffer))"

text \<open>Frame by frame: \<open>frame[0].ch0, frame[0].ch1, frame[1].ch0, frame[1].ch1, \<dots>\<close>\<close>

fun alternate :: "'a list \<Rightarrow> 'a list \<Rightarrow> 'a list" where
  "alternate (x # xs) (y # ys) = x # y # alternate xs ys"
| "alternate _ _ = []"

text \<open>
  Clamp to \<open>[-1, 1]\<close>, scale negative or zero values by 32768 and positive values by
  32767, truncate towards zero.
\<close>

definition truncate_toward_zero :: "real \<Rightarrow> int" where
  "truncate_toward_zero x = (if 0 \<le> x then \<lfloor>x\<rfloor> else - \<lfloor>- x\<rfloor>)"

definition spec_quantize :: "real \<Rightarrow> int" where
  "spec_quantize s =
     (let c = max (- 1) (min 1 s)
      in if c \<le> 0 then truncate_toward_zero (c * 32768) else truncate_toward_zero (c * 32767))"

text \<open>The same on an already clamped value, with the rounding written out.\<close>

definition quantize :: "real \<Rightarrow> int" where
  "quantize c = (if c < 0 then \<lceil>c * 32768\<rceil> else \<lfloor>c * 32767\<rfloor>)"

text \<open>The operator \<^verbatim>\<open><=\<close> on numbers: false as soon as one operand is NaN.\<close>

fun js_le :: "number \<Rightarrow> number \<Rightarrow> bool" where
  "js_le NaN _ = False"
| "js_le _ NaN = False"
| "js_le (Fin a) (Fin b) = (a \<le> b)"
| "js_le NegInf _ = True"
| "js_le _ PosInf = True"
| "js_le _ NegInf = False"
| "js_le PosInf _ = False"

section \<open>Auxiliary facts\<close>

subsection \<open>Sequential writes into a view\<close>

lemma bindE_Inr [simp]: "bindE (Inr x) f = f x"
  by (simp add: bindE_def)

lemma bindE_Inl [simp]: "bindE (Inl e) f = Inl e"
  by (simp add: bindE_def)

lemma length_le_bytes [simp]: "length (le_bytes k n) = k"
  by (induction k arbitrary: n) simp_all

lemma store_bytes_filled:
  assumes "length written = byteOffset" and "length bs \<le> m"
  shows "store_bytes (filled written m) byteOffset bs = Inr (filled (written @ bs) (m - length bs))"
  using assms by (simp add: store_bytes_def filled_def)

lemma writeString_loop_filled:
  assumes "i \<le> length string" and "length written = offset + i"
    and "length string - i \<le> m"
  shows "writeString_loop (filled written m) offset string i
         = Inr (filled (written @ ascii (drop i string)) (m - (length string - i)))"
  using assms
proof (induction "length string - i" arbitrary: i written m)
  case 0
  then show ?case
    by (subst writeString_loop.simps) (simp add: ascii_def)
next
  case (Suc k)
  from Suc.hyps(2) have lt: "i < length string" by simp
  have step: "setUint8 (filled written m) (offset + i) (of_char (string ! i))
              = Inr (filled (written @ [of_nat (of_char (string ! i))]) (m - 1))"
    using Suc.prems lt
      store_bytes_filled [of written "offset + i" "[of_nat (of_char (string ! i))]" m]
    by (simp add: setUint8_def ToUint8_def)
  have dr: "drop i string = string ! i # drop (Suc i) string"
    using lt by (simp add: Cons_nth_drop_Suc)
  have "writeString_loop (filled (written @ [of_nat (of_char (string ! i))]) (m - 1)) offset string (Suc i)
        = Inr (filled ((written @ [of_nat (of_char (string ! i))]) @ ascii (drop (Suc i) string))
                (m - 1 - (length string - Suc i)))"
    using Suc.hyps Suc.prems lt by (intro Suc.hyps(1)) simp_all
  then show ?case
    using lt step dr
    by (simp add: writeString_loop.simps [of _ _ _ i] ascii_def)
qed

lemma writeString_filled:
  assumes "length written = offset" and "length string \<le> m"
  shows "writeString (filled written m) offset string
         = Inr (filled (written @ ascii string) (m - length string))"
  using writeString_loop_filled [of 0 string written offset m] assms
  by (simp add: writeString_def)

lemma writePCM_loop_filled:
  assumes "i \<le> length interleaved" and "length written = offset"
    and "2 * (length interleaved - i) \<le> m"
  shows "writePCM_loop interleaved i offset (filled written m)
         = Inr (filled (written @ concat (map pcm_bytes (drop i interleaved)))
                  (m - 2 * (length interleaved - i)))"
  using assms
proof (induction "length interleaved - i" arbitrary: i written m offset)
  case 0
  then show ?case
    by (subst writePCM_loop.simps) simp
next
  case (Suc k)
  from Suc.hyps(2) have lt: "i < length interleaved" by simp
  have step: "setInt16 (filled written m) offset (scale (clamp (f32_get interleaved i)))
              = Inr (filled (written @ pcm_bytes (interleaved ! i)) (m - 2))"
    using Suc.prems lt store_bytes_filled [of written offset "pcm_bytes (interleaved ! i)" m]
    by (simp add: setInt16_def pcm_bytes_def pcm16_def f32_get_def)
  have dr: "drop i interleaved = interleaved ! i # drop (Suc i) interleaved"
    using lt by (simp add: Cons_nth_drop_Suc)
  have "writePCM_loop interleaved (Suc i) (offset + 2) (filled (written @ pcm_bytes (interleaved ! i)) (m - 2))
        = Inr (filled ((written @ pcm_bytes (interleaved ! i)) @ concat (map pcm_bytes (drop (Suc i) interleaved)))
                (m - 2 - 2 * (length interleaved - Suc i)))"
    using Suc.hyps Suc.prems lt by (intro Suc.hyps(1)) (simp_all add: pcm_bytes_def)
  moreover have "m - 2 - 2 * (length interleaved - Suc i) = m - 2 * (length interleaved - i)"
    using lt by simp
  ultimately show ?case
    using lt step dr
    by (simp add: writePCM_loop.simps [of _ i])
qed

subsection \<open>The bytes written by \<open>writeWAV\<close>\<close>

lemma length_ascii [simp]: "length (ascii s) = length s"
  by (simp add: ascii_def)

lemma setUint16_filled:
  assumes "length written = byteOffset" and "2 \<le> m"
  shows "setUint16 (filled written m) byteOffset v
         = Inr (filled (written @ le_bytes 2 (ToUint16 v)) (m - 2))"
  using store_bytes_filled [of written byteOffset "le_bytes 2 (ToUint16 v)" m] assms
  by (simp add: setUint16_def)

lemma setUint32_filled:
  assumes "length written = byteOffset" and "4 \<le> m"
  shows "setUint32 (filled written m) byteOffset v
         = Inr (filled (written @ le_bytes 4 (ToUint32 v)) (m - 4))"
  using store_bytes_filled [of written byteOffset "le_bytes 4 (ToUint32 v)" m] assms
  by (simp add: setUint32_def)

lemma filled_Nil: "replicate m 0 = filled [] m"
  by (simp add: filled_def)

lemma filled_0 [simp]: "filled written 0 = written"
  by (simp add: filled_def)

lemma length_pcm_bytes [simp]: "length (pcm_bytes x) = 2"
  by (simp add: pcm_bytes_def)

lemma length_payload [simp]: "length (payload xs) = 2 * length xs"
  by (induction xs) (simp_all add: payload_def)

lemma length_header [simp]: "length (header rate numChannels n) = 44"
  by (simp add: header_def)

lemma writeWAV_eq:
  "writeWAV rate numChannels interleaved
   = Inr (header rate numChannels (length interleaved) @ payload interleaved)"
  using writePCM_loop_filled [of 0 interleaved _ 44 "length interleaved * 2"]
  by (simp add: writeWAV_def Let_def filled_Nil writeString_filled setUint32_filled
      setUint16_filled header_def payload_def)

subsection \<open>Interleaving\<close>

lemma length_f32_set [simp]: "length (f32_set xs i v) = length xs"
  by (simp add: f32_set_def)

lemma length_interleave_loop [simp]:
  "length (interleave_loop ch0 ch1 i idx interleaved) = length interleaved"
proof (induction ch0 ch1 i idx interleaved rule: interleave_loop.induct)
  case (1 ch0 ch1 i idx interleaved)
  show ?case
  proof (cases "i < length ch0")
    case True
    with "1.IH" show ?thesis
      by (subst interleave_loop.simps) simp
  next
    case False
    then show ?thesis
      by (subst interleave_loop.simps) simp
  qed
qed

lemma take_two_updates:
  assumes "Suc (2 * i) < length xs"
  shows "take (2 * Suc i) (xs[2 * i := a, Suc (2 * i) := b]) = take (2 * i) xs @ [a, b]"
proof -
  let ?ys = "xs[2 * i := a, Suc (2 * i) := b]"
  have len: "Suc (2 * i) < length ?ys" using assms by simp
  have "take (Suc (Suc (2 * i))) ?ys = take (Suc (2 * i)) ?ys @ [?ys ! Suc (2 * i)]"
    using len by (rule take_Suc_conv_app_nth)
  also have "take (Suc (2 * i)) ?ys = take (2 * i) ?ys @ [?ys ! (2 * i)]"
    using len by (intro take_Suc_conv_app_nth) simp
  also have "take (2 * i) ?ys = take (2 * i) xs"
    by simp
  also have "?ys ! (2 * i) = a" using assms by simp
  also have "?ys ! Suc (2 * i) = b" using assms by simp
  finally show ?thesis by simp
qed

lemma interleave_loop_alternate:
  assumes "length ch1 = length ch0" and "length interleaved = 2 * length ch0"
    and "i \<le> length ch0"
  shows "interleave_loop ch0 ch1 i (2 * i) interleaved
         = take (2 * i) interleaved @ alternate (drop i ch0) (drop i ch1)"
  using assms(2,3)
proof (induction "length ch0 - i" arbitrary: i interleaved)
  case 0
  then show ?case
    using assms(1) by (subst interleave_loop.simps) simp
next
  case (Suc k)
  from Suc.hyps(2) have lt: "i < length ch0" by simp
  let ?next = "interleaved[2 * i := ch0 ! i, Suc (2 * i) := ch1 ! i]"
  have upd: "f32_set (f32_set interleaved (2 * i) (f32_get ch0 i)) (2 * i + 1) (f32_get ch1 i)
             = ?next"
    using lt assms(1) Suc.prems(1) by (simp add: f32_set_def f32_get_def)
  have ih: "interleave_loop ch0 ch1 (Suc i) (2 * Suc i) ?next
            = take (2 * Suc i) ?next @ alternate (drop (Suc i) ch0) (drop (Suc i) ch1)"
  proof (rule Suc.hyps(1))
    show "k = length ch0 - Suc i" using Suc.hyps(2) by simp
    show "length ?next = 2 * length ch0" using Suc.prems(1) by simp
    show "Suc i \<le> length ch0" using lt by simp
  qed
  have tk: "take (2 * Suc i) ?next = take (2 * i) interleaved @ [ch0 ! i, ch1 ! i]"
    using lt Suc.prems(1) by (intro take_two_updates) simp
  have d0: "drop i ch0 = ch0 ! i # drop (Suc i) ch0"
    using lt by (simp add: Cons_nth_drop_Suc)
  have d1: "drop i ch1 = ch1 ! i # drop (Suc i) ch1"
    using lt assms(1) by (simp add: Cons_nth_drop_Suc)
  have "interleave_loop ch0 ch1 i (2 * i) interleaved
        = interleave_loop ch0 ch1 (Suc i) (2 * Suc i) ?next"
    using lt upd by (subst interleave_loop.simps) simp
  also have "\<dots> = take (2 * i) interleaved @ alternate (drop i ch0) (drop i ch1)"
    unfolding ih tk d0 d1 by simp
  finally show ?case .
qed

lemma length_alternate: "length (alternate xs ys) = 2 * min (length xs) (length ys)"
  by (induction xs ys rule: alternate.induct) simp_all

lemma alternate_nth:
  assumes "i < length xs" and "i < length ys"
  shows "alternate xs ys ! (2 * i) = xs ! i" and "alternate xs ys ! Suc (2 * i) = ys ! i"
  using assms
proof (induction xs ys arbitrary: i rule: alternate.induct)
  case (1 x xs y ys)
  { case 1 then show ?case using "1.IH"(1) [of "i - 1"] by (cases i) simp_all }
  { case 2 then show ?case using "1.IH"(2) [of "i - 1"] by (cases i) simp_all }
qed simp_all

lemma interleave_none:
  assumes "numberOfChannels audioBuffer = 0"
  shows "interleave audioBuffer = Inl IndexSizeError"
  using assms by (simp add: interleave_def getChannelData_def)

lemma interleave_mono:
  assumes "numberOfChannels audioBuffer = 1"
  shows "interleave audioBuffer = Inr (channelData audioBuffer ! 0)"
  using assms by (simp add: interleave_def getChannelData_def f32_slice_def)

lemma interleave_stereo_loop:
  assumes "2 \<le> numberOfChannels audioBuffer"
  shows "interleave audioBuffer
         = Inr (interleave_loop (channelData audioBuffer ! 0) (channelData audioBuffer ! 1) 0 0
                  (replicate (length (channelData audioBuffer ! 0)
                            + length (channelData audioBuffer ! 1)) (Fin 0)))"
  using assms by (simp add: interleave_def getChannelData_def min_def)

lemma interleave_stereo:
  assumes "2 \<le> numberOfChannels audioBuffer"
    and "length (channelData audioBuffer ! 1) = length (channelData audioBuffer ! 0)"
  shows "interleave audioBuffer
         = Inr (alternate (channelData audioBuffer ! 0) (channelData audioBuffer ! 1))"
  using interleave_loop_alternate [of "channelData audioBuffer ! 1" "channelData audioBuffer ! 0"
      "replicate (length (channelData audioBuffer ! 0)
                            + length (channelData audioBuffer ! 1)) (Fin 0)" 0] assms
  by (simp add: interleave_stereo_loop)

subsection \<open>Quantisation\<close>

lemma clamp_Fin: "clamp (Fin r) = Fin (max (- 1) (min 1 r))"
  by (simp add: clamp_def Math_min_def Math_max_def)

lemma clamp_PosInf: "clamp PosInf = Fin 1"
  by (simp add: clamp_def Math_min_def Math_max_def)

lemma clamp_NegInf: "clamp NegInf = Fin (- 1)"
  by (simp add: clamp_def Math_min_def Math_max_def)

lemma clamp_NaN: "clamp NaN = NaN"
  by (simp add: clamp_def Math_min_def Math_max_def)

lemma scale_Fin: "scale (Fin c) = Fin (if c < 0 then c * 32768 else c * 32767)"
  by (simp add: scale_def)

lemma ToInt16_in_range:
  assumes "- 32768 \<le> js_truncate x" and "js_truncate x \<le> 32767"
  shows "ToInt16 (Fin x) = js_truncate x"
proof (cases "0 \<le> js_truncate x")
  case True
  then have "js_truncate x mod 2 ^ 16 = js_truncate x"
    using assms by simp
  then show ?thesis using assms by (simp add: Let_def)
next
  case False
  then have "(js_truncate x + 65536) mod 65536 = js_truncate x + 65536"
    using assms by (intro mod_pos_pos_trivial) simp_all
  then have "js_truncate x mod 2 ^ 16 = js_truncate x + 65536"
    by simp
  then show ?thesis using assms False by (simp add: Let_def)
qed

lemma quantize_bounds:
  assumes "- 1 \<le> c" and "c \<le> 1"
  shows "- 32768 \<le> quantize c" and "quantize c \<le> 32767"
proof -
  show "- 32768 \<le> quantize c"
  proof (cases "c < 0")
    case True
    have "(- 32768 :: real) \<le> c * 32768" using assms by simp
    then have "- 32768 \<le> \<lceil>c * 32768\<rceil>" by linarith
    then show ?thesis using True by (simp add: quantize_def)
  next
    case False
    then have "0 \<le> c * 32767" by simp
    then have "0 \<le> \<lfloor>c * 32767\<rfloor>" by simp
    then show ?thesis using False by (simp add: quantize_def)
  qed
  show "quantize c \<le> 32767"
  proof (cases "c < 0")
    case True
    then have "c * 32768 \<le> 0" by simp
    then have "\<lceil>c * 32768\<rceil> \<le> 0" by (simp add: ceiling_le_zero)
    then show ?thesis using True by (simp add: quantize_def)
  next
    case False
    have "c * 32767 \<le> 32767" using assms by simp
    then have "\<lfloor>c * 32767\<rfloor> \<le> 32767" by linarith
    then show ?thesis using False by (simp add: quantize_def)
  qed
qed

lemma pcm16_Fin: "pcm16 (Fin r) = quantize (max (- 1) (min 1 r))"
proof -
  let ?c = "max (- 1) (min 1 r)"
  have c: "- 1 \<le> ?c" "?c \<le> 1" by simp_all
  have t: "js_truncate (if ?c < 0 then ?c * 32768 else ?c * 32767) = quantize ?c"
    by (simp add: js_truncate_def quantize_def mult_less_0_iff)
  show ?thesis
    unfolding pcm16_def clamp_Fin scale_Fin
    using ToInt16_in_range [of "if ?c < 0 then ?c * 32768 else ?c * 32767"]
      quantize_bounds [OF c] unfolding t by simp
qed

lemma pcm16_others: "pcm16 PosInf = 32767" "pcm16 NegInf = - 32768" "pcm16 NaN = 0"
  by (simp_all add: pcm16_def clamp_PosInf clamp_NegInf clamp_NaN scale_Fin scale_def
      js_truncate_def Let_def)

lemma pcm16_range: "- 32768 \<le> pcm16 x" "pcm16 x \<le> 32767"
  by (cases x; simp add: pcm16_Fin pcm16_others quantize_bounds)+

lemma quantize_mono:
  assumes "c1 \<le> c2"
  shows "quantize c1 \<le> quantize c2"
proof -
  consider "c2 < 0" | "c1 < 0" "0 \<le> c2" | "0 \<le> c1" by linarith
  then show ?thesis
  proof cases
    case 1
    then show ?thesis using assms by (simp add: quantize_def ceiling_mono)
  next
    case 2
    have "\<lceil>c1 * 32768\<rceil> \<le> 0" using 2 by (simp add: ceiling_le_zero mult_le_0_iff)
    moreover have "0 \<le> \<lfloor>c2 * 32767\<rfloor>" using 2 by simp
    ultimately have "\<lceil>c1 * 32768\<rceil> \<le> \<lfloor>c2 * 32767\<rfloor>" by linarith
    then show ?thesis using 2 by (simp add: quantize_def)
  next
    case 3
    then show ?thesis using assms by (simp add: quantize_def floor_mono)
  qed
qed

lemma quantize_spec:
  "quantize c = (if c \<le> 0 then truncate_toward_zero (c * 32768)
                 else truncate_toward_zero (c * 32767))"
  by (simp add: quantize_def truncate_toward_zero_def ceiling_def mult_less_0_iff zero_le_mult_iff)

subsection \<open>Reading header fields\<close>

lemma uint_le_le_bytes: "uint_le (le_bytes k n) = n mod 256 ^ k"
proof (induction k arbitrary: n)
  case 0
  show ?case by simp
next
  case (Suc k)
  have "unat (of_nat (n mod 256) :: byte) = n mod 256"
    by (simp add: unat_of_nat)
  then have "uint_le (le_bytes (Suc k) n) = n mod 256 + 256 * (n div 256 mod 256 ^ k)"
    using Suc.IH [of "n div 256"] by simp
  also have "\<dots> = n mod (256 * 256 ^ k)"
    by (simp add: mod_mult2_eq)
  finally show ?case by simp
qed

lemma header_fields:
  fixes rate numChannels n :: nat and rest :: "byte list"
  defines "out \<equiv> header rate numChannels n @ rest"
  shows "bytes_at out 0 4 = ascii ''RIFF''"
    and "bytes_at out 4 4 = le_bytes 4 (ToUint32 (36 + n * 2))"
    and "bytes_at out 8 4 = ascii ''WAVE''"
    and "bytes_at out 12 4 = ascii ''fmt ''"
    and "bytes_at out 16 4 = le_bytes 4 (ToUint32 16)"
    and "bytes_at out 20 2 = le_bytes 2 (ToUint16 1)"
    and "bytes_at out 22 2 = le_bytes 2 (ToUint16 numChannels)"
    and "bytes_at out 24 4 = le_bytes 4 (ToUint32 rate)"
    and "bytes_at out 28 4 = le_bytes 4 (ToUint32 (rate * numChannels * 2))"
    and "bytes_at out 32 2 = le_bytes 2 (ToUint16 (numChannels * 2))"
    and "bytes_at out 34 2 = le_bytes 2 (ToUint16 16)"
    and "bytes_at out 36 4 = ascii ''data''"
    and "bytes_at out 40 4 = le_bytes 4 (ToUint32 (n * 2))"
  unfolding out_def header_def bytes_at_def by simp_all

lemma header_uints:
  fixes rate numChannels n :: nat and rest :: "byte list"
  defines "out \<equiv> header rate numChannels n @ rest"
  shows "read_uint32 out 4 = (36 + n * 2) mod 2 ^ 32"
    and "read_uint32 out 16 = 16"
    and "read_uint16 out 20 = 1"
    and "read_uint16 out 22 = numChannels mod 2 ^ 16"
    and "read_uint32 out 24 = rate mod 2 ^ 32"
    and "read_uint32 out 28 = (rate * numChannels * 2) mod 2 ^ 32"
    and "read_uint16 out 32 = (numChannels * 2) mod 2 ^ 16"
    and "read_uint16 out 34 = 16"
    and "read_uint32 out 40 = (n * 2) mod 2 ^ 32"
  unfolding out_def read_uint32_def read_uint16_def header_fields uint_le_le_bytes
    ToUint32_def ToUint16_def by simp_all

subsection \<open>Arrays as objects\<close>

lemma interleave_loop_heap_fresh:
  assumes "ch0 < length h" and "ch1 < length h"
  shows "interleave_loop_heap (h @ [ys]) ch0 ch1 i idx (length h)
         = h @ [interleave_loop (h ! ch0) (h ! ch1) i idx ys]"
proof (induction "length (h ! ch0) - i" arbitrary: i idx ys)
  case 0
  then show ?case
    using assms
    by (subst interleave_loop_heap.simps, subst interleave_loop.simps) (simp add: nth_append)
next
  case (Suc k)
  from Suc.hyps(2) have lt: "i < length (h ! ch0)" by simp
  let ?ys = "f32_set (f32_set ys idx (f32_get (h ! ch0) i)) (idx + 1) (f32_get (h ! ch1) i)"
  have step: "heap_set (heap_set (h @ [ys]) (length h) idx (f32_get ((h @ [ys]) ! ch0) i))
                (length h) (idx + 1)
                (f32_get (heap_set (h @ [ys]) (length h) idx (f32_get ((h @ [ys]) ! ch0) i) ! ch1) i)
              = h @ [?ys]"
    using assms by (simp add: heap_set_def nth_append)
  have "interleave_loop_heap (h @ [?ys]) ch0 ch1 (Suc i) (idx + 2) (length h)
        = h @ [interleave_loop (h ! ch0) (h ! ch1) (Suc i) (idx + 2) ?ys]"
    using Suc.hyps(2) by (intro Suc.hyps(1)) simp
  then show ?case
    using lt assms step
    by (subst interleave_loop_heap.simps, subst interleave_loop.simps)
       (simp add: nth_append Let_def)
qed

lemma interleave_heap_refines:
  assumes "\<forall>a \<in> set channels. a < length h"
  shows "interleave_heap h channels
         = (case interleave \<lparr>sampleRate = r, length_frames = n, channelData = map ((!) h) channels\<rparr> of
              Inl e \<Rightarrow> Inl e
            | Inr interleaved \<Rightarrow> Inr (h @ [interleaved], length h))"
proof (cases "2 \<le> length channels")
  case True
  then have lens: "0 < length channels" "1 < length channels"
    by linarith+
  have "channels ! 0 \<in> set channels" "channels ! 1 \<in> set channels"
    using nth_mem [OF lens(1)] nth_mem [OF lens(2)] by blast+
  then have a: "channels ! 0 < length h" "channels ! 1 < length h"
    using assms by blast+
  show ?thesis
    using True interleave_loop_heap_fresh [OF a]
    by (simp add: interleave_heap_def interleave_def getChannelData_ref_def getChannelData_def
        numberOfChannels_def new_Float32Array_def min_def)
next
  case False
  then show ?thesis
    by (simp add: interleave_heap_def interleave_def getChannelData_ref_def getChannelData_def
        numberOfChannels_def new_Float32Array_def min_def)
qed

subsection \<open>Reading the payload\<close>

lemma drop_payload: "drop (2 * i) (payload xs) = payload (drop i xs)"
proof (induction xs arbitrary: i)
  case Nil
  show ?case by (simp add: payload_def)
next
  case (Cons x xs)
  show ?case
  proof (cases i)
    case 0
    then show ?thesis by simp
  next
    case (Suc j)
    then show ?thesis using Cons.IH [of j] by (simp add: payload_def)
  qed
qed

lemma payload_at:
  assumes "i < length xs" and "length h = k"
  shows "bytes_at (h @ payload xs) (k + 2 * i) 2 = pcm_bytes (xs ! i)"
proof -
  have "drop (k + 2 * i) (h @ payload xs) = payload (drop i xs)"
    using assms(2) drop_payload [of i xs] by simp
  also have "\<dots> = pcm_bytes (xs ! i) @ payload (drop (Suc i) xs)"
    using assms(1) by (simp add: payload_def flip: Cons_nth_drop_Suc)
  finally show ?thesis by (simp add: bytes_at_def)
qed

lemma read_int16_pcm_bytes:
  assumes "bytes_at bs off 2 = pcm_bytes x"
  shows "read_int16 bs off = pcm16 x"
proof -
  have m: "0 \<le> pcm16 x mod 2 ^ 16" "pcm16 x mod 2 ^ 16 < 2 ^ 16"
    by simp_all
  have "read_uint16 bs off = nat (pcm16 x mod 2 ^ 16) mod 256 ^ 2"
    using assms by (simp add: read_uint16_def pcm_bytes_def uint_le_le_bytes)
  also have "\<dots> = nat (pcm16 x mod 2 ^ 16)"
    using m by (intro mod_less) (simp add: nat_less_iff)
  finally have u: "int (read_uint16 bs off) = pcm16 x mod 2 ^ 16"
    using m(1) by simp
  show ?thesis
  proof (cases "0 \<le> pcm16 x")
    case True
    then have "pcm16 x mod 2 ^ 16 = pcm16 x"
      using pcm16_range(2) [of x] by simp
    then show ?thesis
      using u pcm16_range(2) [of x] by (simp add: read_int16_def Let_def)
  next
    case False
    then have "(pcm16 x + 65536) mod 65536 = pcm16 x + 65536"
      using pcm16_range(1) [of x] by (intro mod_pos_pos_trivial) simp_all
    then have "pcm16 x mod 2 ^ 16 = pcm16 x + 65536"
      by simp
    then show ?thesis
      using u pcm16_range(1) [of x] by (simp add: read_int16_def Let_def)
  qed
qed

lemma quantize_error:
  assumes "- 1 \<le> c" and "c \<le> 1"
  shows "\<bar>real_of_int (quantize c) / 32768 - c\<bar> < (1 + max 0 c) / 32768"
proof -
  define q where "q = real_of_int (quantize c)"
  have "c * 32768 - (1 + max 0 c) < q \<and> q < c * 32768 + (1 + max 0 c)"
  proof (cases "c < 0")
    case True
    have "c * 32768 - 1 < real_of_int \<lceil>c * 32768\<rceil>"
      "real_of_int \<lceil>c * 32768\<rceil> < c * 32768 + 1"
      by linarith+
    then show ?thesis using True by (simp add: q_def quantize_def max_def)
  next
    case False
    have "real_of_int \<lfloor>c * 32767\<rfloor> < c * 32768 + (1 + c)"
      "c * 32768 - (1 + c) < real_of_int \<lfloor>c * 32767\<rfloor>"
      using False by linarith+
    then show ?thesis using False by (simp add: q_def quantize_def max_def)
  qed
  then have "\<bar>q / 32768 - c\<bar> < (1 + max 0 c) / 32768"
    by (simp add: abs_less_iff field_simps)
  then show ?thesis by (simp add: q_def)
qed

lemma pcm16_clamp:
  assumes "x \<noteq> NaN"
  shows "\<exists>r. clamp x = Fin r \<and> - 1 \<le> r \<and> r \<le> 1 \<and> pcm16 x = quantize r"
proof (cases x)
  case (Fin s)
  then show ?thesis by (simp add: clamp_Fin pcm16_Fin)
next
  case PosInf
  then show ?thesis by (simp add: clamp_PosInf pcm16_others quantize_def)
next
  case NegInf
  then show ?thesis by (simp add: clamp_NegInf pcm16_others quantize_def)
next
  case NaN
  then show ?thesis using assms by simp
qed

subsection \<open>The output as a whole\<close>

lemma encodeWAV_eq:
  assumes "interleave audioBuffer = Inr interleaved"
  shows "encodeWAV audioBuffer
         = Inr (header (sampleRate audioBuffer) (min 2 (numberOfChannels audioBuffer))
                  (length interleaved) @ payload interleaved)"
  using assms by (simp add: encodeWAV_def writeWAV_eq)

lemma interleave_total:
  assumes "1 \<le> numberOfChannels audioBuffer"
  shows "\<exists>interleaved. interleave audioBuffer = Inr interleaved"
proof (cases "2 \<le> numberOfChannels audioBuffer")
  case True
  then show ?thesis by (simp add: interleave_stereo_loop)
next
  case False
  then have "numberOfChannels audioBuffer = 1" using assms by simp
  then show ?thesis by (simp add: interleave_mono)
qed

lemma interleave_Inr_channels:
  assumes "interleave audioBuffer = Inr interleaved"
  shows "1 \<le> numberOfChannels audioBuffer"
proof (rule ccontr)
  assume "\<not> 1 \<le> numberOfChannels audioBuffer"
  then have "numberOfChannels audioBuffer = 0" by simp
  then show False using assms by (simp add: interleave_none)
qed

lemma le_bytes_2: "le_bytes 2 n = [of_nat (n mod 256), of_nat (n div 256 mod 256)]"
proof -
  have "le_bytes (Suc (Suc 0)) n = [of_nat (n mod 256), of_nat (n div 256 mod 256)]"
    by simp
  then show ?thesis by (simp only: numeral_2_eq_2)
qed

lemma le_bytes_4:
  "le_bytes 4 n = [of_nat (n mod 256), of_nat (n div 256 mod 256),
                   of_nat (n div 256 div 256 mod 256), of_nat (n div 256 div 256 div 256 mod 256)]"
proof -
  have "le_bytes (Suc (Suc (Suc (Suc 0)))) n
        = [of_nat (n mod 256), of_nat (n div 256 mod 256),
           of_nat (n div 256 div 256 mod 256), of_nat (n div 256 div 256 div 256 mod 256)]"
    by simp
  moreover have "(4::nat) = Suc (Suc (Suc (Suc 0)))" by simp
  ultimately show ?thesis by (simp only:)
qed

lemma ascii_tags:
  "ascii ''RIFF'' = [82, 73, 70, 70]" "ascii ''WAVE'' = [87, 65, 86, 69]"
  "ascii ''fmt '' = [102, 109, 116, 32]" "ascii ''data'' = [100, 97, 116, 97]"
  by (simp_all add: ascii_def)

subsection \<open>Valid inputs and the reference reader\<close>

lemma interleave_valid:
  assumes "valid_audio audioBuffer"
  shows "\<exists>interleaved. interleave audioBuffer = Inr interleaved
     \<and> length interleaved = length_frames audioBuffer * min 2 (numberOfChannels audioBuffer)
     \<and> (\<forall>f < length_frames audioBuffer. \<forall>c < min 2 (numberOfChannels audioBuffer).
           interleaved ! (f * min 2 (numberOfChannels audioBuffer) + c)
           = channelData audioBuffer ! c ! f)"
proof (cases "2 \<le> numberOfChannels audioBuffer")
  case True
  let ?ch0 = "channelData audioBuffer ! 0" and ?ch1 = "channelData audioBuffer ! 1"
  have "2 \<le> length (channelData audioBuffer)"
    using True by (simp add: numberOfChannels_def)
  then have "0 < length (channelData audioBuffer)" "1 < length (channelData audioBuffer)"
    by linarith+
  then have "?ch0 \<in> set (channelData audioBuffer)" "?ch1 \<in> set (channelData audioBuffer)"
    using nth_mem by blast+
  then have len: "length ?ch0 = length_frames audioBuffer" "length ?ch1 = length_frames audioBuffer"
    using assms by (simp_all add: valid_audio_def)
  have i: "interleave audioBuffer = Inr (alternate ?ch0 ?ch1)"
    using True len by (simp add: interleave_stereo)
  have n: "min 2 (numberOfChannels audioBuffer) = 2" using True by simp
  have "alternate ?ch0 ?ch1 ! (f * 2 + c) = channelData audioBuffer ! c ! f"
    if "f < length_frames audioBuffer" and "c < 2" for f c
  proof (cases "c = 0")
    case True
    then show ?thesis
      using alternate_nth(1) [of f ?ch0 ?ch1] that len by (simp add: mult.commute)
  next
    case False
    then have "c = 1" using that(2) by simp
    then show ?thesis
      using alternate_nth(2) [of f ?ch0 ?ch1] that len by (simp add: mult.commute)
  qed
  then show ?thesis
    using i n len by (simp add: length_alternate)
next
  case False
  then have one: "numberOfChannels audioBuffer = 1"
    using assms by (simp add: valid_audio_def)
  then have "0 < length (channelData audioBuffer)"
    by (simp add: numberOfChannels_def)
  then have "channelData audioBuffer ! 0 \<in> set (channelData audioBuffer)"
    by (rule nth_mem)
  then have "length (channelData audioBuffer ! 0) = length_frames audioBuffer"
    using assms by (simp add: valid_audio_def)
  then show ?thesis
    using one by (simp add: interleave_mono)
qed

lemma encodeWAV_sample:
  assumes "interleave audioBuffer = Inr interleaved" and "i < length interleaved"
  shows "\<exists>out. encodeWAV audioBuffer = Inr out
           \<and> read_int16 out (44 + 2 * i) = pcm16 (interleaved ! i)"
proof -
  let ?h = "header (sampleRate audioBuffer) (min 2 (numberOfChannels audioBuffer))
              (length interleaved)"
  have "bytes_at (?h @ payload interleaved) (44 + 2 * i) 2 = pcm_bytes (interleaved ! i)"
    using assms(2) by (intro payload_at) simp_all
  then have "read_int16 (?h @ payload interleaved) (44 + 2 * i) = pcm16 (interleaved ! i)"
    by (rule read_int16_pcm_bytes)
  then show ?thesis by (simp add: encodeWAV_eq [OF assms(1)])
qed

lemma payload_samples:
  assumes "length h = 44"
  shows "map (\<lambda>i. read_int16 (h @ payload xs) (44 + 2 * i)) [0 ..< length xs] = map pcm16 xs"
proof (rule map_upt_eqI)
  show "length (map pcm16 xs) = length xs - 0" by simp
next
  fix i
  assume "i < length (map pcm16 xs)"
  then have i: "i < length xs" by simp
  have "bytes_at (h @ payload xs) (44 + 2 * i) 2 = pcm_bytes (xs ! i)"
    using i assms by (rule payload_at)
  then have "read_int16 (h @ payload xs) (44 + 2 * i) = pcm16 (xs ! i)"
    by (rule read_int16_pcm_bytes)
  then show "map pcm16 xs ! i = read_int16 (h @ payload xs) (44 + 2 * (0 + i))"
    using i by simp
qed

lemma read_wav_encoded:
  assumes "numChannels = 1 \<or> numChannels = 2" and "rate < 2 ^ 32"
    and "36 + length xs * 2 < 2 ^ 32"
  shows "read_wav (header rate numChannels (length xs) @ payload xs)
         = Some \<lparr>wav_channels = numChannels, wav_sampleRate = rate,
                  wav_frames = length xs div numChannels, wav_samples = map pcm16 xs\<rparr>"
proof -
  let ?out = "header rate numChannels (length xs) @ payload xs"
  have nc: "numChannels mod 2 ^ 16 = numChannels" "numChannels * 2 mod 2 ^ 16 = numChannels * 2"
    "numChannels \<noteq> 0"
    using assms(1) by auto
  have sz: "length xs * 2 mod 2 ^ 32 = length xs * 2"
    using assms(3) by simp
  have u: "read_uint32 ?out 16 = 16" "read_uint16 ?out 20 = 1" "read_uint16 ?out 34 = 16"
    "read_uint16 ?out 22 = numChannels" "read_uint16 ?out 32 = numChannels * 2"
    "read_uint32 ?out 24 = rate" "read_uint32 ?out 40 = length xs * 2"
    "read_uint32 ?out 4 = 36 + length xs * 2"
    using nc sz assms(2,3) by (simp_all add: header_uints)
  have t: "bytes_at ?out 0 4 = ascii ''RIFF''" "bytes_at ?out 8 4 = ascii ''WAVE''"
    "bytes_at ?out 12 4 = ascii ''fmt ''" "bytes_at ?out 36 4 = ascii ''data''"
    by (rule header_fields)+
  have s: "map (\<lambda>i. read_int16 ?out (44 + 2 * i)) [0 ..< length xs] = map pcm16 xs"
    by (rule payload_samples) simp
  have d: "length xs * 2 div (numChannels * 2) = length xs div numChannels"
    by simp
  show ?thesis
    unfolding read_wav_def u t using nc(3) s d by simp
qed

section \<open>The properties\<close>

subsection \<open>C1: the header\<close>

text \<open>
  C1. Whenever \<open>sampleRate * outputChannelCount * 2\<close> and \<open>36 + payloadByteLength\<close>
  are below \<open>2^32\<close>, \<^verbatim>\<open>encodeWAV\<close> emits 44 header bytes followed by the payload, and
  the header reads, little-endian: \<open>RIFF\<close> in bytes 0 to 3, \<open>36 + payloadByteLength\<close>
  (the total length minus 8) at offset 4, \<open>WAVE\<close> in bytes 8 to 11, \<open>fmt \<close> in bytes 12
  to 15, then 16, the format tag 1, the output channel count, the sample rate, the byte
  rate \<open>sampleRate * outputChannelCount * 2\<close>, the block alignment
  \<open>outputChannelCount * 2\<close>, 16 bits per sample, \<open>data\<close> in bytes 36 to 39, and
  \<open>payloadByteLength\<close> (the total length minus 44) at offset 40, where
  \<open>payloadByteLength\<close> is twice the length of the interleaved array.
\<close>

theorem encodeWAV_header:
  assumes "interleave audioBuffer = Inr interleaved"
    and "sampleRate audioBuffer * min 2 (numberOfChannels audioBuffer) * 2 < 2 ^ 32"
    and "36 + length interleaved * 2 < 2 ^ 32"
  shows "\<exists>out. encodeWAV audioBuffer = Inr out
      \<and> length out = 44 + length interleaved * 2
      \<and> bytes_at out 0 4 = ascii ''RIFF''
      \<and> read_uint32 out 4 = 36 + length interleaved * 2
      \<and> read_uint32 out 4 = length out - 8
      \<and> bytes_at out 8 4 = ascii ''WAVE''
      \<and> bytes_at out 12 4 = ascii ''fmt ''
      \<and> read_uint32 out 16 = 16
      \<and> read_uint16 out 20 = 1
      \<and> read_uint16 out 22 = min 2 (numberOfChannels audioBuffer)
      \<and> read_uint32 out 24 = sampleRate audioBuffer
      \<and> read_uint32 out 28 = sampleRate audioBuffer * min 2 (numberOfChannels audioBuffer) * 2
      \<and> read_uint16 out 32 = min 2 (numberOfChannels audioBuffer) * 2
      \<and> read_uint16 out 34 = 16
      \<and> bytes_at out 36 4 = ascii ''data''
      \<and> read_uint32 out 40 = length interleaved * 2
      \<and> read_uint32 out 40 = length out - 44"
proof -
  let ?nc = "min 2 (numberOfChannels audioBuffer)"
  let ?out = "header (sampleRate audioBuffer) ?nc (length interleaved) @ payload interleaved"
  have nc: "1 \<le> ?nc" using interleave_Inr_channels [OF assms(1)] by simp
  then have "sampleRate audioBuffer * 1 \<le> sampleRate audioBuffer * ?nc"
    by (rule mult_le_mono2)
  then have "sampleRate audioBuffer \<le> sampleRate audioBuffer * ?nc * 2"
    by simp
  then have rate: "sampleRate audioBuffer < 2 ^ 32"
    using assms(2) by (rule le_less_trans)
  have ch: "?nc < 2 ^ 16" "?nc * 2 < 2 ^ 16" by simp_all
  have len: "length interleaved * 2 < 2 ^ 32" using assms(3) by simp
  have "encodeWAV audioBuffer = Inr ?out" by (rule encodeWAV_eq [OF assms(1)])
  moreover have "length ?out = 44 + length interleaved * 2" by simp
  moreover have "bytes_at ?out 0 4 = ascii ''RIFF''" by (rule header_fields)
  moreover have "read_uint32 ?out 4 = 36 + length interleaved * 2"
    using assms(3) by (simp add: header_uints)
  moreover have "bytes_at ?out 8 4 = ascii ''WAVE''" by (rule header_fields)
  moreover have "bytes_at ?out 12 4 = ascii ''fmt ''" by (rule header_fields)
  moreover have "read_uint32 ?out 16 = 16" by (rule header_uints)
  moreover have "read_uint16 ?out 20 = 1" by (rule header_uints)
  moreover have "read_uint16 ?out 22 = ?nc" using ch(1) by (simp add: header_uints)
  moreover have "read_uint32 ?out 24 = sampleRate audioBuffer"
    using rate by (simp add: header_uints)
  moreover have "read_uint32 ?out 28 = sampleRate audioBuffer * ?nc * 2"
    using assms(2) by (simp add: header_uints)
  moreover have "read_uint16 ?out 32 = ?nc * 2" using ch(2) by (simp add: header_uints)
  moreover have "read_uint16 ?out 34 = 16" by (rule header_uints)
  moreover have "bytes_at ?out 36 4 = ascii ''data''" by (rule header_fields)
  moreover have "read_uint32 ?out 40 = length interleaved * 2"
    using len by (simp add: header_uints)
  ultimately show ?thesis by simp
qed

text \<open>The theorem at a mono buffer of two frames, sampled at 8000 Hz.\<close>

theorem encodeWAV_header_witness:
  "interleave \<lparr>sampleRate = 8000, length_frames = 2, channelData = [[Fin 0, Fin 1]]\<rparr>
     = Inr [Fin 0, Fin 1]
   \<and> (8000::nat) * min 2 (numberOfChannels \<lparr>sampleRate = 8000, length_frames = 2, channelData = [[Fin 0, Fin 1]]\<rparr>) * 2 < 2 ^ 32
   \<and> (\<exists>out. encodeWAV \<lparr>sampleRate = 8000, length_frames = 2, channelData = [[Fin 0, Fin 1]]\<rparr> = Inr out
         \<and> length out = 48 \<and> read_uint32 out 4 = 40 \<and> read_uint32 out 24 = 8000
         \<and> read_uint32 out 28 = 16000 \<and> read_uint32 out 40 = 4)"
proof -
  let ?a = "\<lparr>sampleRate = 8000, length_frames = 2, channelData = [[Fin 0, Fin 1]]\<rparr>"
  have n: "numberOfChannels ?a = 1" by (simp add: numberOfChannels_def)
  have i: "interleave ?a = Inr [Fin 0, Fin 1]" by (simp add: interleave_mono n)
  show ?thesis
    using encodeWAV_header [of ?a "[Fin 0, Fin 1]"] i n by auto
qed

text \<open>
  Without the bounds the property fails: \<^verbatim>\<open>setUint32\<close> stores its argument modulo
  \<open>2^32\<close>, so a sample rate of \<open>2^32\<close> leaves 0 in the sample-rate field (bytes 24 to 27)
  and in the byte-rate field.
\<close>

theorem encodeWAV_header_counterexample:
  "encodeWAV \<lparr>sampleRate = 4294967296, length_frames = 0, channelData = [[]]\<rparr>
   = Inr [82, 73, 70, 70, 36, 0, 0, 0, 87, 65, 86, 69, 102, 109, 116, 32, 16, 0, 0, 0, 1, 0, 1, 0,
          0, 0, 0, 0, 0, 0, 0, 0, 2, 0, 16, 0, 100, 97, 116, 97, 0, 0, 0, 0]
   \<and> read_uint32 [82, 73, 70, 70, 36, 0, 0, 0, 87, 65, 86, 69, 102, 109, 116, 32, 16, 0, 0, 0, 1, 0, 1, 0,
          0, 0, 0, 0, 0, 0, 0, 0, 2, 0, 16, 0, 100, 97, 116, 97, 0, 0, 0, 0] 24
     \<noteq> sampleRate \<lparr>sampleRate = 4294967296, length_frames = 0, channelData = [[]]\<rparr>"
proof -
  let ?a = "\<lparr>sampleRate = 4294967296, length_frames = 0, channelData = [[]]\<rparr>"
  have n: "numberOfChannels ?a = 1" by (simp add: numberOfChannels_def)
  have i: "interleave ?a = Inr []" by (simp add: interleave_mono n)
  have "encodeWAV ?a = Inr (header 4294967296 1 0 @ payload [])"
    using encodeWAV_eq [OF i] n by simp
  then show ?thesis
    by (simp add: header_def payload_def ascii_tags le_bytes_2 le_bytes_4 ToUint32_def ToUint16_def
        read_uint32_def bytes_at_def)
qed

subsection \<open>C2: the length of the output\<close>

text \<open>
  C2. For every valid decoded audio value (at least one channel, every channel buffer of
  length \<open>frameCount\<close>), the output of \<^verbatim>\<open>encodeWAV\<close> is
  \<open>44 + frameCount * min(2, channelCount) * 2\<close> bytes long.
\<close>

theorem encodeWAV_length:
  assumes "valid_audio audioBuffer"
  shows "\<exists>out. encodeWAV audioBuffer = Inr out
           \<and> length out = 44 + length_frames audioBuffer * min 2 (numberOfChannels audioBuffer) * 2"
proof -
  obtain interleaved where "interleave audioBuffer = Inr interleaved"
    and "length interleaved = length_frames audioBuffer * min 2 (numberOfChannels audioBuffer)"
    using interleave_valid [OF assms] by blast
  then show ?thesis by (simp add: encodeWAV_eq)
qed

text \<open>The theorem at a buffer of three channels and three frames: 44 + 3 * 2 * 2 bytes.\<close>

theorem encodeWAV_length_witness:
  "valid_audio \<lparr>sampleRate = 48000, length_frames = 3,
      channelData = [[Fin 0, Fin 1, Fin 0], [Fin 1, Fin 0, Fin 1], [NaN, NaN, NaN]]\<rparr>
   \<and> (\<exists>out. encodeWAV \<lparr>sampleRate = 48000, length_frames = 3,
      channelData = [[Fin 0, Fin 1, Fin 0], [Fin 1, Fin 0, Fin 1], [NaN, NaN, NaN]]\<rparr> = Inr out
        \<and> length out = 56)"
  using encodeWAV_length [of "\<lparr>sampleRate = 48000, length_frames = 3,
      channelData = [[Fin 0, Fin 1, Fin 0], [Fin 1, Fin 0, Fin 1], [NaN, NaN, NaN]]\<rparr>"]
  by (simp add: valid_audio_def numberOfChannels_def)

subsection \<open>C3: quantisation of a sample\<close>

text \<open>
  C3. The 16-bit value stored for a sample \<open>s\<close> is \<open>s\<close> clamped to \<open>[-1, 1]\<close>, scaled by
  32768 if negative or zero and by 32767 if positive, and truncated towards zero. It
  always lies in \<open>[-32768, 32767]\<close>; a sample of 1.5 is stored as 32767 and a sample of
  -1.5 as -32768. The value stored for the \<open>i\<close>-th element of the interleaved array is
  the signed 16-bit integer at byte \<open>44 + 2 * i\<close> of the output.
\<close>

theorem pcm16_quantization:
  "pcm16 (Fin s) = spec_quantize s
   \<and> - 32768 \<le> pcm16 x \<and> pcm16 x \<le> 32767
   \<and> pcm16 (Fin 1.5) = 32767 \<and> pcm16 (Fin (- 1.5)) = - 32768
   \<and> (interleave audioBuffer = Inr interleaved \<and> i < length interleaved
        \<longrightarrow> (\<exists>out. encodeWAV audioBuffer = Inr out
               \<and> read_int16 out (44 + 2 * i) = pcm16 (interleaved ! i)))"
proof -
  have "pcm16 (Fin s) = spec_quantize s"
    by (simp add: pcm16_Fin spec_quantize_def quantize_spec Let_def)
  moreover have "pcm16 (Fin 1.5) = 32767"
    by (simp add: pcm16_Fin quantize_def)
  moreover have "pcm16 (Fin (- 1.5)) = - 32768"
    by (simp add: pcm16_Fin quantize_def)
  ultimately show ?thesis
    using pcm16_range [of x] encodeWAV_sample [of audioBuffer interleaved i] by blast
qed

text \<open>The theorem at a mono buffer holding 1.5 and -1.5, read at the second sample.\<close>

theorem pcm16_quantization_witness:
  "interleave \<lparr>sampleRate = 8000, length_frames = 2, channelData = [[Fin 1.5, Fin (- 1.5)]]\<rparr>
     = Inr [Fin 1.5, Fin (- 1.5)]
   \<and> (1::nat) < length [Fin 1.5, Fin (- 1.5)]
   \<and> pcm16 (Fin 0.25) = spec_quantize 0.25
   \<and> spec_quantize 0.25 = 8191
   \<and> (\<exists>out. encodeWAV \<lparr>sampleRate = 8000, length_frames = 2,
                 channelData = [[Fin 1.5, Fin (- 1.5)]]\<rparr> = Inr out
          \<and> read_int16 out 46 = - 32768)"
proof -
  let ?a = "\<lparr>sampleRate = 8000, length_frames = 2, channelData = [[Fin 1.5, Fin (- 1.5)]]\<rparr>"
  have i: "interleave ?a = Inr [Fin 1.5, Fin (- 1.5)]"
    by (simp add: interleave_mono numberOfChannels_def)
  have q: "spec_quantize 0.25 = 8191"
    by (simp add: spec_quantize_def truncate_toward_zero_def)
  show ?thesis
    using pcm16_quantization [of "0.25" NaN ?a "[Fin 1.5, Fin (- 1.5)]" 1] i q by auto
qed

subsection \<open>C4: the order of interleaving\<close>

text \<open>
  C4. With at least two channels, the first two of the same length \<open>n\<close>, the interleaved
  array has length \<open>n * 2\<close> and alternates channel 0 and channel 1 frame by frame. For
  channel 0 = [0.0, 0.5] and channel 1 = [-0.5, 1.0] it is [0.0, -0.5, 0.5, 1.0].
\<close>

theorem interleave_order:
  "(2 \<le> numberOfChannels audioBuffer \<and> length (channelData audioBuffer ! 0) = n
      \<and> length (channelData audioBuffer ! 1) = n
    \<longrightarrow> (\<exists>interleaved. interleave audioBuffer = Inr interleaved
          \<and> length interleaved = n * 2
          \<and> (\<forall>i<n. interleaved ! (2 * i) = channelData audioBuffer ! 0 ! i
                  \<and> interleaved ! (2 * i + 1) = channelData audioBuffer ! 1 ! i)))
   \<and> interleave \<lparr>sampleRate = rate, length_frames = 2,
        channelData = [[Fin 0, Fin 0.5], [Fin (- 0.5), Fin 1]]\<rparr>
     = Inr [Fin 0, Fin (- 0.5), Fin 0.5, Fin 1]"
proof
  show "2 \<le> numberOfChannels audioBuffer \<and> length (channelData audioBuffer ! 0) = n
      \<and> length (channelData audioBuffer ! 1) = n
    \<longrightarrow> (\<exists>interleaved. interleave audioBuffer = Inr interleaved
          \<and> length interleaved = n * 2
          \<and> (\<forall>i<n. interleaved ! (2 * i) = channelData audioBuffer ! 0 ! i
                  \<and> interleaved ! (2 * i + 1) = channelData audioBuffer ! 1 ! i))"
    by (simp add: interleave_stereo length_alternate alternate_nth)
  have "interleave \<lparr>sampleRate = rate, length_frames = 2,
        channelData = [[Fin 0, Fin 0.5], [Fin (- 0.5), Fin 1]]\<rparr>
     = Inr (alternate [Fin 0, Fin 0.5] [Fin (- 0.5), Fin 1])"
    by (simp add: interleave_stereo numberOfChannels_def)
  then show "interleave \<lparr>sampleRate = rate, length_frames = 2,
        channelData = [[Fin 0, Fin 0.5], [Fin (- 0.5), Fin 1]]\<rparr>
     = Inr [Fin 0, Fin (- 0.5), Fin 0.5, Fin 1]"
    by simp
qed

text \<open>The theorem at a buffer of three channels and one frame.\<close>

theorem interleave_order_witness:
  "2 \<le> numberOfChannels \<lparr>sampleRate = 8000, length_frames = 1,
           channelData = [[Fin 0.5], [Fin 0.25], [Fin 1]]\<rparr>
   \<and> (\<exists>interleaved. interleave \<lparr>sampleRate = 8000, length_frames = 1,
           channelData = [[Fin 0.5], [Fin 0.25], [Fin 1]]\<rparr> = Inr interleaved
        \<and> length interleaved = 2 \<and> interleaved ! 0 = Fin 0.5 \<and> interleaved ! 1 = Fin 0.25)"
  using interleave_order [of "\<lparr>sampleRate = 8000, length_frames = 1,
           channelData = [[Fin 0.5], [Fin 0.25], [Fin 1]]\<rparr>" 1 8000]
  by (simp add: numberOfChannels_def)

subsection \<open>C5: reading the output back\<close>

text \<open>
  C5. For every valid input without NaN samples in the channels that are encoded, with
  a sample rate below \<open>2^32\<close> and \<open>36 + payloadByteLength\<close> below \<open>2^32\<close>, reading the
  output back as a canonical 16-bit PCM WAVE file gives \<open>frameCount\<close> frames,
  \<open>min(2, channelCount)\<close> channels and the input's sample rate, and every decoded
  sample, divided by 32768, differs from the clamped source sample \<open>c\<close> by less than
  \<open>(1 + max(0, c)) / 32768\<close>: less than one step of \<open>1/32768\<close> for a sample that is not
  positive, less than two steps for a positive one.
\<close>

theorem encodeWAV_round_trip:
  assumes "valid_audio audioBuffer"
    and "\<forall>ch \<in> set (take 2 (channelData audioBuffer)). NaN \<notin> set ch"
    and "sampleRate audioBuffer < 2 ^ 32"
    and "36 + length_frames audioBuffer * min 2 (numberOfChannels audioBuffer) * 2 < 2 ^ 32"
  shows "\<exists>out w. encodeWAV audioBuffer = Inr out \<and> read_wav out = Some w
      \<and> wav_frames w = length_frames audioBuffer
      \<and> wav_channels w = min 2 (numberOfChannels audioBuffer)
      \<and> wav_sampleRate w = sampleRate audioBuffer
      \<and> length (wav_samples w) = length_frames audioBuffer * min 2 (numberOfChannels audioBuffer)
      \<and> (\<forall>f < length_frames audioBuffer. \<forall>c < min 2 (numberOfChannels audioBuffer).
            \<exists>r. clamp (channelData audioBuffer ! c ! f) = Fin r \<and> - 1 \<le> r \<and> r \<le> 1
              \<and> \<bar>real_of_int (wav_samples w ! (f * min 2 (numberOfChannels audioBuffer) + c)) / 32768
                   - r\<bar> < (1 + max 0 r) / 32768)"
proof -
  let ?nc = "min 2 (numberOfChannels audioBuffer)"
  let ?F = "length_frames audioBuffer"
  obtain xs where i: "interleave audioBuffer = Inr xs"
    and len: "length xs = ?F * ?nc"
    and idx: "\<forall>f < ?F. \<forall>c < ?nc. xs ! (f * ?nc + c) = channelData audioBuffer ! c ! f"
    using interleave_valid [OF assms(1)] by blast
  let ?out = "header (sampleRate audioBuffer) ?nc (length xs) @ payload xs"
  let ?w = "\<lparr>wav_channels = ?nc, wav_sampleRate = sampleRate audioBuffer,
             wav_frames = length xs div ?nc, wav_samples = map pcm16 xs\<rparr>"
  have nc: "?nc = 1 \<or> ?nc = 2"
    using assms(1) by (auto simp: valid_audio_def min_def)
  have enc: "encodeWAV audioBuffer = Inr ?out"
    by (rule encodeWAV_eq [OF i])
  have rd: "read_wav ?out = Some ?w"
    using nc assms(3,4) len by (intro read_wav_encoded) simp_all
  have fr: "length xs div ?nc = ?F"
    using nc len by auto
  have err: "\<exists>r. clamp (channelData audioBuffer ! c ! f) = Fin r \<and> - 1 \<le> r \<and> r \<le> 1
              \<and> \<bar>real_of_int (map pcm16 xs ! (f * ?nc + c)) / 32768 - r\<bar> < (1 + max 0 r) / 32768"
    if f: "f < ?F" and c: "c < ?nc" for f c
  proof -
    let ?s = "channelData audioBuffer ! c ! f"
    have c2: "c < length (take 2 (channelData audioBuffer))"
      using c by (simp add: numberOfChannels_def)
    then have "take 2 (channelData audioBuffer) ! c \<in> set (take 2 (channelData audioBuffer))"
      by (rule nth_mem)
    then have in2: "channelData audioBuffer ! c \<in> set (take 2 (channelData audioBuffer))"
      using c2 by simp
    then have "channelData audioBuffer ! c \<in> set (channelData audioBuffer)"
      by (rule in_set_takeD)
    then have "length (channelData audioBuffer ! c) = ?F"
      using assms(1) by (simp add: valid_audio_def)
    then have "?s \<in> set (channelData audioBuffer ! c)"
      using f by simp
    then have "?s \<noteq> NaN"
      using assms(2) in2 by metis
    then obtain r where r: "clamp ?s = Fin r" "- 1 \<le> r" "r \<le> 1" "pcm16 ?s = quantize r"
      using pcm16_clamp by blast
    have "f * ?nc + c < ?F * ?nc"
    proof -
      have "f * ?nc + c < f * ?nc + ?nc" using c by simp
      also have "\<dots> = Suc f * ?nc" by simp
      also have "\<dots> \<le> ?F * ?nc" using f by (intro mult_le_mono1) simp
      finally show ?thesis .
    qed
    then have "map pcm16 xs ! (f * ?nc + c) = pcm16 (xs ! (f * ?nc + c))"
      using len by simp
    also have "\<dots> = quantize r"
      using idx f c r(4) by simp
    finally show ?thesis
      using r quantize_error [of r] by auto
  qed
  show ?thesis
    using enc rd fr len err by (intro exI [of _ ?out] exI [of _ ?w]) simp
qed

text \<open>The theorem at a buffer of two frames whose first two channels hold no NaN.\<close>

theorem encodeWAV_round_trip_witness:
  "valid_audio \<lparr>sampleRate = 44100, length_frames = 2,
      channelData = [[Fin 0.5, PosInf], [Fin (- 0.25), Fin 2], [NaN, NaN]]\<rparr>
   \<and> take 2 (channelData \<lparr>sampleRate = 44100, length_frames = 2,
      channelData = [[Fin 0.5, PosInf], [Fin (- 0.25), Fin 2], [NaN, NaN]]\<rparr>)
      = [[Fin 0.5, PosInf], [Fin (- 0.25), Fin 2]]
   \<and> NaN \<notin> set [Fin 0.5, PosInf] \<and> NaN \<notin> set [Fin (- 0.25), Fin 2]
   \<and> (\<exists>out w. encodeWAV \<lparr>sampleRate = 44100, length_frames = 2,
      channelData = [[Fin 0.5, PosInf], [Fin (- 0.25), Fin 2], [NaN, NaN]]\<rparr> = Inr out
        \<and> read_wav out = Some w \<and> wav_frames w = 2 \<and> wav_channels w = 2
        \<and> wav_sampleRate w = 44100 \<and> length (wav_samples w) = 4)"
proof -
  let ?a = "\<lparr>sampleRate = 44100, length_frames = 2,
      channelData = [[Fin 0.5, PosInf], [Fin (- 0.25), Fin 2], [NaN, NaN]]\<rparr>"
  have v: "valid_audio ?a" by (simp add: valid_audio_def numberOfChannels_def)
  have n: "\<forall>ch \<in> set (take 2 (channelData ?a)). NaN \<notin> set ch" by simp
  have m: "min 2 (numberOfChannels ?a) = 2" by (simp add: numberOfChannels_def)
  have r: "sampleRate ?a < 2 ^ 32" by simp
  have p: "36 + length_frames ?a * min 2 (numberOfChannels ?a) * 2 < 2 ^ 32"
    by (simp add: numberOfChannels_def)
  have "\<exists>out w. encodeWAV ?a = Inr out \<and> read_wav out = Some w \<and> wav_frames w = 2
          \<and> wav_channels w = 2 \<and> wav_sampleRate w = 44100 \<and> length (wav_samples w) = 4"
    using encodeWAV_round_trip [OF v n r p] unfolding m by auto
  then show ?thesis using v by simp
qed

text \<open>
  The tolerance of one step fails for positive samples, which are scaled by 32767 and
  truncated. The mono input below holds two samples that are 32-bit floats. The first,
  \<open>32769 / 2^24\<close>, is stored as 63: whether 63 is read back as \<open>63 / 32768\<close> or as
  \<open>63 / 32767\<close>, it lies more than \<open>1 / 32768\<close> below the sample. The second,
  \<open>49153 / 2^16\<close>, is stored as 24575, and \<open>24575 / 32768\<close> lies one and a half steps
  below it.
\<close>

theorem encodeWAV_round_trip_counterexample:
  "valid_audio \<lparr>sampleRate = 8000, length_frames = 2,
      channelData = [[Fin (32769 / 16777216), Fin (49153 / 65536)]]\<rparr>
   \<and> encodeWAV \<lparr>sampleRate = 8000, length_frames = 2,
      channelData = [[Fin (32769 / 16777216), Fin (49153 / 65536)]]\<rparr>
     = Inr [82, 73, 70, 70, 40, 0, 0, 0, 87, 65, 86, 69, 102, 109, 116, 32, 16, 0, 0, 0, 1, 0, 1, 0,
            64, 31, 0, 0, 128, 62, 0, 0, 2, 0, 16, 0, 100, 97, 116, 97, 4, 0, 0, 0,
            63, 0, 255, 95]
   \<and> read_wav [82, 73, 70, 70, 40, 0, 0, 0, 87, 65, 86, 69, 102, 109, 116, 32, 16, 0, 0, 0, 1, 0, 1, 0,
            64, 31, 0, 0, 128, 62, 0, 0, 2, 0, 16, 0, 100, 97, 116, 97, 4, 0, 0, 0,
            63, 0, 255, 95]
     = Some \<lparr>wav_channels = 1, wav_sampleRate = 8000, wav_frames = 2, wav_samples = [63, 24575]\<rparr>
   \<and> clamp (Fin (32769 / 16777216)) = Fin (32769 / 16777216)
   \<and> clamp (Fin (49153 / 65536)) = Fin (49153 / 65536)
   \<and> \<not> \<bar>63 / 32768 - 32769 / 16777216\<bar> \<le> (1 / 32768 :: real)
   \<and> \<not> \<bar>63 / 32767 - 32769 / 16777216\<bar> \<le> (1 / 32768 :: real)
   \<and> \<bar>24575 / 32768 - 49153 / 65536\<bar> = (3 / 65536 :: real)"
proof -
  let ?s = "Fin (32769 / 16777216)" and ?t = "Fin (49153 / 65536)"
  let ?a = "\<lparr>sampleRate = 8000, length_frames = 2, channelData = [[?s, ?t]]\<rparr>"
  let ?bytes = "[82, 73, 70, 70, 40, 0, 0, 0, 87, 65, 86, 69, 102, 109, 116, 32, 16, 0, 0, 0, 1, 0, 1, 0,
            64, 31, 0, 0, 128, 62, 0, 0, 2, 0, 16, 0, 100, 97, 116, 97, 4, 0, 0, 0,
            63, 0, 255, 95] :: byte list"
  have v: "valid_audio ?a" by (simp add: valid_audio_def numberOfChannels_def)
  have n: "numberOfChannels ?a = 1" by (simp add: numberOfChannels_def)
  have i: "interleave ?a = Inr [?s, ?t]" using interleave_mono [OF n] by simp
  have q: "pcm16 ?s = 63" "pcm16 ?t = 24575" by (simp_all add: pcm16_Fin quantize_def)
  have b: "header 8000 1 (length [?s, ?t]) @ payload [?s, ?t] = ?bytes"
    by (simp add: header_def payload_def pcm_bytes_def q ascii_tags le_bytes_2 le_bytes_4
        ToUint32_def ToUint16_def)
  have e: "encodeWAV ?a = Inr ?bytes"
    using encodeWAV_eq [OF i] n b by simp
  have "read_wav (header 8000 1 (length [?s, ?t]) @ payload [?s, ?t])
        = Some \<lparr>wav_channels = 1, wav_sampleRate = 8000, wav_frames = length [?s, ?t] div 1,
                 wav_samples = map pcm16 [?s, ?t]\<rparr>"
    by (rule read_wav_encoded) simp_all
  then have r: "read_wav ?bytes
        = Some \<lparr>wav_channels = 1, wav_sampleRate = 8000, wav_frames = 2,
                 wav_samples = [63, 24575]\<rparr>"
    unfolding b by (simp add: q)
  have c: "clamp ?s = ?s" "clamp ?t = ?t" by (simp_all add: clamp_Fin)
  show ?thesis using v e r c by simp
qed

subsection \<open>C6: one channel\<close>

text \<open>
  C6. For an input with one channel, of length \<open>frameCount\<close>, the channel-count field of
  the header is 1, the payload is \<open>frameCount * 2\<close> bytes long, and the interleaved array
  holds the elements of channel 0 unchanged. It is a new array: over any heap in which
  channel 0 is the array at address \<open>a\<close>, the array returned has an address that was not
  in use, so it is not the array at \<open>a\<close>, and the arrays that existed are as they were.
\<close>

theorem encodeWAV_mono:
  assumes "numberOfChannels audioBuffer = 1"
    and "length (channelData audioBuffer ! 0) = length_frames audioBuffer"
  shows "interleave audioBuffer = Inr (channelData audioBuffer ! 0)
     \<and> (\<exists>out. encodeWAV audioBuffer = Inr out \<and> read_uint16 out 22 = 1
            \<and> length out = 44 + length_frames audioBuffer * 2)
     \<and> (a < length h \<and> h ! a = channelData audioBuffer ! 0
           \<longrightarrow> (\<exists>h' interleaved. interleave_heap h [a] = Inr (h', interleaved)
                  \<and> interleaved \<noteq> a \<and> length h \<le> interleaved
                  \<and> take (length h) h' = h
                  \<and> h' ! interleaved = channelData audioBuffer ! 0))"
proof (intro conjI impI)
  show i: "interleave audioBuffer = Inr (channelData audioBuffer ! 0)"
    using assms(1) by (rule interleave_mono)
  show "\<exists>out. encodeWAV audioBuffer = Inr out \<and> read_uint16 out 22 = 1
            \<and> length out = 44 + length_frames audioBuffer * 2"
    using assms by (simp add: encodeWAV_eq [OF i] header_uints)
next
  assume a: "a < length h \<and> h ! a = channelData audioBuffer ! 0"
  then have "interleave_heap h [a] = Inr (h @ [h ! a], length h)"
    by (simp add: interleave_heap_def getChannelData_ref_def new_Float32Array_def f32_slice_def)
  then show "\<exists>h' interleaved. interleave_heap h [a] = Inr (h', interleaved)
                  \<and> interleaved \<noteq> a \<and> length h \<le> interleaved
                  \<and> take (length h) h' = h
                  \<and> h' ! interleaved = channelData audioBuffer ! 0"
    using a by simp
qed

text \<open>The theorem at a mono buffer of two frames, and at a heap of two arrays of which the second is channel 0.\<close>

theorem encodeWAV_mono_witness:
  "numberOfChannels \<lparr>sampleRate = 8000, length_frames = 2, channelData = [[Fin 0.5, Fin 1]]\<rparr> = 1
   \<and> interleave \<lparr>sampleRate = 8000, length_frames = 2, channelData = [[Fin 0.5, Fin 1]]\<rparr>
       = Inr [Fin 0.5, Fin 1]
   \<and> (\<exists>out. encodeWAV \<lparr>sampleRate = 8000, length_frames = 2, channelData = [[Fin 0.5, Fin 1]]\<rparr>
             = Inr out \<and> read_uint16 out 22 = 1 \<and> length out = 48)
   \<and> (\<exists>h' interleaved. interleave_heap [[NaN], [Fin 0.5, Fin 1]] [1] = Inr (h', interleaved)
         \<and> interleaved \<noteq> 1 \<and> 2 \<le> interleaved \<and> take 2 h' = [[NaN], [Fin 0.5, Fin 1]]
         \<and> h' ! interleaved = [Fin 0.5, Fin 1])"
proof -
  let ?a = "\<lparr>sampleRate = 8000, length_frames = 2, channelData = [[Fin 0.5, Fin 1]]\<rparr>"
  have n: "numberOfChannels ?a = 1" by (simp add: numberOfChannels_def)
  have l: "length (channelData ?a ! 0) = length_frames ?a" by simp
  have two: "length [[NaN], [Fin (0.5::real), Fin 1]] = 2" by simp
  show ?thesis
    using encodeWAV_mono [OF n l, of 1 "[[NaN], [Fin 0.5, Fin 1]]"] n
    unfolding two by simp
qed

subsection \<open>C7: no frames\<close>

text \<open>
  C7. For a valid input with \<open>frameCount = 0\<close>, the output is exactly 44 bytes long and the
  data chunk size field at offset 40 is 0.
\<close>

theorem encodeWAV_no_frames:
  assumes "valid_audio audioBuffer" and "length_frames audioBuffer = 0"
  shows "\<exists>out. encodeWAV audioBuffer = Inr out \<and> length out = 44 \<and> read_uint32 out 40 = 0"
proof -
  obtain interleaved where "interleave audioBuffer = Inr interleaved"
    and "length interleaved = length_frames audioBuffer * min 2 (numberOfChannels audioBuffer)"
    using interleave_valid [OF assms(1)] by blast
  then show ?thesis using assms(2) by (simp add: encodeWAV_eq header_uints)
qed

text \<open>The theorem at a stereo buffer without frames.\<close>

theorem encodeWAV_no_frames_witness:
  "valid_audio \<lparr>sampleRate = 44100, length_frames = 0, channelData = [[], []]\<rparr>
   \<and> length_frames \<lparr>sampleRate = 44100, length_frames = 0, channelData = [[], []]\<rparr> = 0
   \<and> (\<exists>out. encodeWAV \<lparr>sampleRate = 44100, length_frames = 0, channelData = [[], []]\<rparr> = Inr out
        \<and> length out = 44 \<and> read_uint32 out 40 = 0)"
  using encodeWAV_no_frames [of "\<lparr>sampleRate = 44100, length_frames = 0, channelData = [[], []]\<rparr>"]
  by (simp add: valid_audio_def numberOfChannels_def)

subsection \<open>C8: totality\<close>

text \<open>
  C8. On every input with at least one channel \<^verbatim>\<open>encodeWAV\<close> returns a container of
  at least 44 bytes whose data-length field holds the payload length (modulo \<open>2^32\<close>);
  when the channels it reads have no frames, the container is exactly 44 bytes long and
  the field is 0. On an input with no channels \<^verbatim>\<open>getChannelData(0)\<close> throws, and so
  does \<^verbatim>\<open>encodeWAV\<close>.
\<close>

theorem encodeWAV_total:
  "(1 \<le> numberOfChannels audioBuffer
      \<longrightarrow> (\<exists>out. encodeWAV audioBuffer = Inr out \<and> 44 \<le> length out
             \<and> bytes_at out 0 4 = ascii ''RIFF'' \<and> bytes_at out 8 4 = ascii ''WAVE''
             \<and> bytes_at out 36 4 = ascii ''data''
             \<and> read_uint32 out 40 = (length out - 44) mod 2 ^ 32))
   \<and> (1 \<le> numberOfChannels audioBuffer
        \<and> (\<forall>ch \<in> set (take 2 (channelData audioBuffer)). ch = [])
      \<longrightarrow> (\<exists>out. encodeWAV audioBuffer = Inr out \<and> length out = 44 \<and> read_uint32 out 40 = 0))
   \<and> (numberOfChannels audioBuffer = 0 \<longrightarrow> encodeWAV audioBuffer = Inl IndexSizeError)"
proof (intro conjI impI)
  assume "1 \<le> numberOfChannels audioBuffer"
  then obtain interleaved where i: "interleave audioBuffer = Inr interleaved"
    using interleave_total by blast
  show "\<exists>out. encodeWAV audioBuffer = Inr out \<and> 44 \<le> length out
             \<and> bytes_at out 0 4 = ascii ''RIFF'' \<and> bytes_at out 8 4 = ascii ''WAVE''
             \<and> bytes_at out 36 4 = ascii ''data''
             \<and> read_uint32 out 40 = (length out - 44) mod 2 ^ 32"
    by (simp add: encodeWAV_eq [OF i] header_uints header_fields mult.commute)
next
  assume a: "1 \<le> numberOfChannels audioBuffer
        \<and> (\<forall>ch \<in> set (take 2 (channelData audioBuffer)). ch = [])"
  then have "0 < length (take 2 (channelData audioBuffer))"
    by (cases "channelData audioBuffer") (simp_all add: numberOfChannels_def)
  then have "take 2 (channelData audioBuffer) ! 0 \<in> set (take 2 (channelData audioBuffer))"
    by (rule nth_mem)
  then have ch0: "channelData audioBuffer ! 0 = []"
    using a by (simp add: numberOfChannels_def)
  have "interleave audioBuffer = Inr []"
  proof (cases "2 \<le> numberOfChannels audioBuffer")
    case True
    then have "1 < length (take 2 (channelData audioBuffer))"
      by (simp add: numberOfChannels_def)
    then have "take 2 (channelData audioBuffer) ! 1 \<in> set (take 2 (channelData audioBuffer))"
      by (rule nth_mem)
    then have "channelData audioBuffer ! 1 = []"
      using a by simp
    then show ?thesis
      using True ch0 by (simp add: interleave_stereo)
  next
    case False
    then have "numberOfChannels audioBuffer = 1" using a by simp
    then show ?thesis using ch0 by (simp add: interleave_mono)
  qed
  then show "\<exists>out. encodeWAV audioBuffer = Inr out \<and> length out = 44 \<and> read_uint32 out 40 = 0"
    by (simp add: encodeWAV_eq header_uints)
next
  assume "numberOfChannels audioBuffer = 0"
  then show "encodeWAV audioBuffer = Inl IndexSizeError"
    by (simp add: encodeWAV_def interleave_none)
qed

text \<open>The theorem at a mono buffer without frames and at a buffer without channels.\<close>

theorem encodeWAV_total_witness:
  "1 \<le> numberOfChannels \<lparr>sampleRate = 44100, length_frames = 0, channelData = [[]]\<rparr>
   \<and> take 2 (channelData \<lparr>sampleRate = 44100, length_frames = 0, channelData = [[]]\<rparr>) = [[]]
   \<and> (\<exists>out. encodeWAV \<lparr>sampleRate = 44100, length_frames = 0, channelData = [[]]\<rparr> = Inr out
         \<and> length out = 44 \<and> read_uint32 out 40 = 0)
   \<and> numberOfChannels \<lparr>sampleRate = 44100, length_frames = 0, channelData = []\<rparr> = 0
   \<and> encodeWAV \<lparr>sampleRate = 44100, length_frames = 0, channelData = []\<rparr> = Inl IndexSizeError"
  using encodeWAV_total [of "\<lparr>sampleRate = 44100, length_frames = 0, channelData = [[]]\<rparr>"]
    encodeWAV_total [of "\<lparr>sampleRate = 44100, length_frames = 0, channelData = []\<rparr>"]
  by (simp add: numberOfChannels_def)

text \<open>
  The input with no channels and no frames: \<open>numChannels\<close> is 0, the \<open>else\<close> branch of
  line 102 calls \<^verbatim>\<open>getChannelData(0)\<close>, and no container is returned.
\<close>

theorem encodeWAV_total_counterexample:
  "encodeWAV \<lparr>sampleRate = 44100, length_frames = 0, channelData = []\<rparr> = Inl IndexSizeError"
  by (simp add: encodeWAV_def interleave_def getChannelData_def numberOfChannels_def)

subsection \<open>C9: channels beyond the second\<close>

text \<open>
  C9. Two inputs with the same sample rate and at least two channels each, which agree on
  channel 0 and on channel 1, are encoded to the same bytes, whatever further channels
  they have.
\<close>

theorem encodeWAV_first_two_channels:
  assumes "2 \<le> numberOfChannels a" and "2 \<le> numberOfChannels b"
    and "sampleRate a = sampleRate b"
    and "channelData a ! 0 = channelData b ! 0" and "channelData a ! 1 = channelData b ! 1"
  shows "\<exists>out. encodeWAV a = Inr out \<and> encodeWAV b = Inr out"
proof -
  obtain interleaved where a: "interleave a = Inr interleaved"
    using interleave_total [of a] assms(1) by auto
  have "interleave b = interleave a"
    using assms by (simp add: interleave_stereo_loop)
  then have b: "interleave b = Inr interleaved"
    using a by simp
  have "min 2 (numberOfChannels a) = min 2 (numberOfChannels b)"
    using assms(1,2) by simp
  then have "encodeWAV a = encodeWAV b"
    using assms(3) by (simp add: encodeWAV_eq [OF a] encodeWAV_eq [OF b])
  then show ?thesis
    by (simp add: encodeWAV_eq [OF b])
qed

text \<open>The theorem at a buffer of two channels and a buffer of four channels with the same first two.\<close>

theorem encodeWAV_first_two_channels_witness:
  "2 \<le> numberOfChannels \<lparr>sampleRate = 8000, length_frames = 1, channelData = [[Fin 1], [Fin 0]]\<rparr>
   \<and> 2 \<le> numberOfChannels \<lparr>sampleRate = 8000, length_frames = 1,
              channelData = [[Fin 1], [Fin 0], [Fin (- 1)], [NaN]]\<rparr>
   \<and> (\<exists>out. encodeWAV \<lparr>sampleRate = 8000, length_frames = 1, channelData = [[Fin 1], [Fin 0]]\<rparr> = Inr out
         \<and> encodeWAV \<lparr>sampleRate = 8000, length_frames = 1,
              channelData = [[Fin 1], [Fin 0], [Fin (- 1)], [NaN]]\<rparr> = Inr out)"
  using encodeWAV_first_two_channels [of
      "\<lparr>sampleRate = 8000, length_frames = 1, channelData = [[Fin 1], [Fin 0]]\<rparr>"
      "\<lparr>sampleRate = 8000, length_frames = 1, channelData = [[Fin 1], [Fin 0], [Fin (- 1)], [NaN]]\<rparr>"]
  by (simp add: numberOfChannels_def)

subsection \<open>C10: monotonicity of the quantisation\<close>

text \<open>
  C10. The 16-bit value stored for a sample is monotone: if \<open>s1 <= s2\<close> then the value
  stored for \<open>s1\<close> is at most the value stored for \<open>s2\<close>.
\<close>

theorem pcm16_monotone:
  assumes "js_le s1 s2"
  shows "pcm16 s1 \<le> pcm16 s2"
proof -
  have fin: "pcm16 (Fin a) \<le> pcm16 (Fin b)" if "a \<le> b" for a b
  proof -
    have "max (- 1) (min 1 a) \<le> max (- 1) (min 1 b)" using that by simp
    then show ?thesis by (simp only: pcm16_Fin quantize_mono)
  qed
  show ?thesis
  proof (cases s1)
    case (Fin a)
    then show ?thesis
      using assms fin pcm16_range(2) [of s1] by (cases s2) (simp_all add: pcm16_others)
  next
    case PosInf
    then show ?thesis using assms by (cases s2) (simp_all add: pcm16_others)
  next
    case NegInf
    then show ?thesis
      using assms pcm16_range(1) [of s2] by (cases s2) (simp_all add: pcm16_others)
  next
    case NaN
    then show ?thesis using assms by simp
  qed
qed

text \<open>The theorem at the samples -0.5 and 0.25.\<close>

theorem pcm16_monotone_witness:
  "js_le (Fin (- 0.5)) (Fin 0.25) \<and> pcm16 (Fin (- 0.5)) \<le> pcm16 (Fin 0.25)"
  using pcm16_monotone [of "Fin (- 0.5)" "Fin 0.25"] by simp

end
